theory Spec2Isabelle
  imports Main
begin

section \<open>IR objects shared by loop fusion and loop predication\<close>

text \<open>
  Basic blocks, loops and instructions are heap objects of the compiler; the passes
  only compare their addresses and ask analyses about them.  An object is its
  address, a natural number; a pointer that may be null is an \<open>option\<close>.

  The model follows release builds: \<open>assert\<close> expands to nothing, and
  \<open>llvm_unreachable\<close>, which has no value to return, is an error value.
  \<open>LLVM_DEBUG\<close> output is not part of the model.
\<close>

type_synonym block = nat
type_synonym loop = nat
type_synonym inst = nat

text \<open>\<open>ICmpInst::Predicate\<close>, the integer comparisons.\<close>

datatype predicate =
    ICMP_EQ | ICMP_NE
  | ICMP_UGT | ICMP_UGE | ICMP_ULT | ICMP_ULE
  | ICMP_SGT | ICMP_SGE | ICMP_SLT | ICMP_SLE

text \<open>An integer type of a given bit width, or a pointer type.\<close>

datatype ty = IntegerTy nat | PointerTy

text \<open>
  Symbolic expressions of scalar evolution.  The engine keeps one object per
  expression, so two expression pointers are equal exactly when the expressions are
  the same term; equality of \<open>scev\<close> values stands for pointer equality.
  A constant carries its type and its value; an unknown carries its type and the
  IR value it stands for; an add recurrence carries its operands (start first),
  its loop and its no-wrap flags.
\<close>

datatype scev =
    SCEVCouldNotCompute
  | SCEVConstant ty int
  | SCEVUnknown ty inst
  | SCEVTruncateExpr scev ty
  | SCEVZeroExtendExpr scev ty
  | SCEVSignExtendExpr scev ty
  | SCEVAddExpr "scev list"
  | SCEVMulExpr "scev list"
  | SCEVUDivExpr scev scev
  | SCEVAddRecExpr "scev list" loop nat
  | SCEVSMaxExpr "scev list"
  | SCEVUMaxExpr "scev list"
  | SCEVSMinExpr "scev list"
  | SCEVUMinExpr "scev list"

section \<open>Loop fusion (LoopFuse.cpp)\<close>

subsection \<open>Statistics and remarks\<close>

text \<open>The \<open>STATISTIC\<close> counters of the pass, and the remarks it emits.\<close>

datatype statistic =
    FuseCounter | NumFusionCandidates | InvalidPreheader | InvalidHeader
  | InvalidExitingBlock | InvalidExitBlock | InvalidLatch | InvalidLoop
  | AddressTakenBB | MayThrowException | ContainsVolatileAccess | NotSimplifiedForm
  | InvalidDependencies | UnknownTripCount | UncomputableTripCount | NonEqualTripCount
  | NonAdjacent | NonEmptyPreheader | FusionNotBeneficial | NonIdenticalGuards
  | NonEmptyExitBlock | NonEmptyGuardBlock

datatype remark_kind =
  OptimizationRemark | OptimizationRemarkMissed | OptimizationRemarkAnalysis

record remark =
  RemarkKind :: remark_kind
  RemarkName :: statistic
  Cand1 :: "block option"
  Cand2 :: "block option"

text \<open>
  What the pass writes outside the IR: the counters, and the remarks handed to the
  emitter, oldest first.
\<close>

record diag =
  stats :: "statistic \<Rightarrow> nat"
  remarks :: "remark list"

definition incr :: "statistic \<Rightarrow> diag \<Rightarrow> diag" where
  "incr s d = d\<lparr>stats := (stats d)(s := stats d s + 1)\<rparr>"

subsection \<open>Fusion candidates\<close>

text \<open>The guard branch of a loop: its block, its condition and its two successors.\<close>

record branch_inst =
  getParent :: block
  getCondition :: inst
  getSuccessor0 :: block
  getSuccessor1 :: block

text \<open>
  \<open>struct FusionCandidate\<close>.  The field \<open>L\<close> of the source is \<open>FCLoop\<close>
  here.  The analyses the source reaches through the candidate's \<open>DT\<close>,
  \<open>PDT\<close> and \<open>ORE\<close> pointers are arguments of the functions that use them.
\<close>

record FusionCandidate =
  Preheader :: "block option"
  Header :: "block option"
  ExitingBlock :: "block option"
  ExitBlock :: "block option"
  Latch :: "block option"
  FCLoop :: loop
  MemReads :: "inst list"
  MemWrites :: "inst list"
  Valid :: bool
  GuardBranch :: "branch_inst option"

definition getEntryBlock :: "FusionCandidate \<Rightarrow> block option" where
  "getEntryBlock FC =
     (case GuardBranch FC of
        Some G \<Rightarrow> Some (getParent G)
      | None \<Rightarrow> Preheader FC)"

definition getNonLoopBlock :: "FusionCandidate \<Rightarrow> branch_inst \<Rightarrow> block option" where
  "getNonLoopBlock FC G =
     (if Some (getSuccessor0 G) = Preheader FC
      then Some (getSuccessor1 G)
      else Some (getSuccessor0 G))"

text \<open>
  A dominance query \<open>dominates A B\<close> of the dominator or the post-dominator tree.
  The trees are built by the surrounding compiler; the pass only queries them.
\<close>

type_synonym domtree = "block option \<Rightarrow> block option \<Rightarrow> bool"

subsection \<open>Ordering and grouping candidates\<close>

datatype fusion_error = NoDominanceRelationship

text \<open>\<open>FusionCandidateCompare::operator()\<close>.\<close>

definition FusionCandidateCompare ::
  "domtree \<Rightarrow> FusionCandidate \<Rightarrow> FusionCandidate \<Rightarrow> fusion_error + bool" where
  "FusionCandidateCompare DT LHS RHS =
     (let LHSEntryBlock = getEntryBlock LHS;
          RHSEntryBlock = getEntryBlock RHS
      in if DT RHSEntryBlock LHSEntryBlock then Inr False
         else if DT LHSEntryBlock RHSEntryBlock then Inr True
         else Inl NoDominanceRelationship)"

text \<open>\<open>LoopFuser::isControlFlowEquivalent\<close>.\<close>

definition isControlFlowEquivalent ::
  "domtree \<Rightarrow> domtree \<Rightarrow> FusionCandidate \<Rightarrow> FusionCandidate \<Rightarrow> bool" where
  "isControlFlowEquivalent DT PDT FC0 FC1 =
     (let FC0EntryBlock = getEntryBlock FC0;
          FC1EntryBlock = getEntryBlock FC1
      in if DT FC0EntryBlock FC1EntryBlock then PDT FC1EntryBlock FC0EntryBlock
         else if DT FC1EntryBlock FC0EntryBlock then PDT FC0EntryBlock FC1EntryBlock
         else False)"

subsection \<open>Pairwise legality checks\<close>

text \<open>\<open>LoopFuser::isAdjacent\<close>.\<close>

definition isAdjacent :: "FusionCandidate \<Rightarrow> FusionCandidate \<Rightarrow> bool" where
  "isAdjacent FC0 FC1 =
     (case GuardBranch FC0 of
        Some G \<Rightarrow> getNonLoopBlock FC0 G = getEntryBlock FC1
      | None \<Rightarrow> ExitBlock FC0 = getEntryBlock FC1)"

text \<open>
  \<open>LoopFuser::identicalTripCounts\<close>.  \<open>getBackedgeTakenCount\<close> is the query
  of scalar evolution for the symbolic backedge-taken count of a loop.
\<close>

definition identicalTripCounts ::
  "(loop \<Rightarrow> scev) \<Rightarrow> FusionCandidate \<Rightarrow> FusionCandidate \<Rightarrow> diag \<Rightarrow> bool \<times> diag" where
  "identicalTripCounts getBackedgeTakenCount FC0 FC1 d =
     (let TripCount0 = getBackedgeTakenCount (FCLoop FC0)
      in if TripCount0 = SCEVCouldNotCompute then (False, incr UncomputableTripCount d)
         else
           let TripCount1 = getBackedgeTakenCount (FCLoop FC1)
           in if TripCount1 = SCEVCouldNotCompute
              then (False, incr UncomputableTripCount d)
              else (TripCount0 = TripCount1, d))"

text \<open>\<open>LoopFuser::reportLoopFusion\<close>: count, then emit the remark.\<close>

definition reportLoopFusion ::
  "remark_kind \<Rightarrow> FusionCandidate \<Rightarrow> FusionCandidate \<Rightarrow> statistic \<Rightarrow> diag \<Rightarrow> diag" where
  "reportLoopFusion K FC0 FC1 Stat d =
     (let d' = incr Stat d
      in d'\<lparr>remarks := remarks d' @
           [\<lparr>RemarkKind = K, RemarkName = Stat,
             Cand1 = Preheader FC0, Cand2 = Preheader FC1\<rparr>]\<rparr>)"

subsection \<open>The analyses the legality checks consult\<close>

text \<open>The command-line choice \<open>loop-fusion-dependence-analysis\<close>.\<close>

datatype FusionDependenceAnalysisChoice =
    FUSION_DEPENDENCE_ANALYSIS_SCEV
  | FUSION_DEPENDENCE_ANALYSIS_DA
  | FUSION_DEPENDENCE_ANALYSIS_ALL

text \<open>
  The IR and the analyses over it, as the pass sees them: each field is a query the
  source makes, with the pointer arguments the source passes.
  \<open>Value_isInstruction\<close> tells whether \<open>dyn_cast<Instruction>\<close> succeeds,
  \<open>DI_depends\<close> whether the dependence analysis returns a dependence, and
  \<open>BB_size\<close> is the number of instructions of a block.
\<close>

record analyses =
  DT_dominates :: domtree
  PDT_dominates :: domtree
  SE_getBackedgeTakenCount :: "loop \<Rightarrow> scev"
  SE_getSCEVAtScope :: "inst \<Rightarrow> loop \<Rightarrow> scev"
  SE_isKnownPositive :: "scev \<Rightarrow> bool"
  SE_isKnownPredicate :: "predicate \<Rightarrow> scev \<Rightarrow> scev \<Rightarrow> bool"
  DI_depends :: "inst \<Rightarrow> inst \<Rightarrow> bool"
  Loop_contains :: "loop \<Rightarrow> loop \<Rightarrow> bool"
  Loop_containsBlock :: "loop \<Rightarrow> block option \<Rightarrow> bool"
  Loop_getHeader :: "loop \<Rightarrow> block option"
  Loop_blocks :: "loop \<Rightarrow> block list"
  BB_instructions :: "block \<Rightarrow> inst list"
  BB_size :: "block option \<Rightarrow> nat"
  Inst_operands :: "inst \<Rightarrow> inst list"
  Inst_getParent :: "inst \<Rightarrow> block option"
  Inst_isIdenticalTo :: "inst \<Rightarrow> inst \<Rightarrow> bool"
  Value_isInstruction :: "inst \<Rightarrow> bool"
  getLoadStorePointerOperand :: "inst \<Rightarrow> inst option"
  FusionDependenceAnalysis :: FusionDependenceAnalysisChoice

subsection \<open>Guards and empty blocks\<close>

text \<open>\<open>LoopFuser::haveIdenticalGuards\<close>, on two guarded candidates and their guards.\<close>

definition haveIdenticalGuards ::
  "analyses \<Rightarrow> FusionCandidate \<Rightarrow> branch_inst \<Rightarrow> FusionCandidate \<Rightarrow> branch_inst \<Rightarrow> bool" where
  "haveIdenticalGuards A FC0 G0 FC1 G1 =
     (if Value_isInstruction A (getCondition G0) \<and> Value_isInstruction A (getCondition G1)
         \<and> \<not> Inst_isIdenticalTo A (getCondition G0) (getCondition G1)
      then False
      else if Some (getSuccessor0 G0) = Preheader FC0
      then Some (getSuccessor0 G1) = Preheader FC1
      else Some (getSuccessor1 G1) = Preheader FC1)"

text \<open>\<open>LoopFuser::isEmptyGuardBlock\<close>.\<close>

definition isEmptyGuardBlock :: "analyses \<Rightarrow> FusionCandidate \<Rightarrow> branch_inst \<Rightarrow> bool" where
  "isEmptyGuardBlock A FC G =
     (if Value_isInstruction A (getCondition G)
      then let GuardBlock = Some (getParent G)
           in if Inst_getParent A (getCondition G) = GuardBlock
              then BB_size A GuardBlock = 2
              else BB_size A GuardBlock = 1
      else False)"

definition isEmptyPreheader :: "analyses \<Rightarrow> FusionCandidate \<Rightarrow> bool" where
  "isEmptyPreheader A FC = (BB_size A (Preheader FC) = 1)"

definition isEmptyExitBlock :: "analyses \<Rightarrow> FusionCandidate \<Rightarrow> bool" where
  "isEmptyExitBlock A FC = (BB_size A (ExitBlock FC) = 1)"

text \<open>\<open>LoopFuser::isBeneficialFusion\<close>.\<close>

definition isBeneficialFusion :: "FusionCandidate \<Rightarrow> FusionCandidate \<Rightarrow> bool" where
  "isBeneficialFusion FC0 FC1 = True"

subsection \<open>Dependences\<close>

text \<open>
  Accessors of add recurrences, from the expression classes of scalar evolution:
  an add recurrence is affine when it has two operands; its start is the first
  operand; its step is the second operand when it is affine, and otherwise the
  recurrence of the remaining operands with no wrap flags.  On other expressions
  the accessors are not called; they return the expression itself there.
\<close>

fun isAffine :: "scev \<Rightarrow> bool" where
  "isAffine (SCEVAddRecExpr ops ExprL flags) = (length ops = 2)"
| "isAffine S = False"

fun getStart :: "scev \<Rightarrow> scev" where
  "getStart (SCEVAddRecExpr (Start # ops) ExprL flags) = Start"
| "getStart S = S"

fun getStepRecurrence :: "scev \<Rightarrow> scev" where
  "getStepRecurrence (SCEVAddRecExpr [Start, Step] ExprL flags) = Step"
| "getStepRecurrence (SCEVAddRecExpr (Start # ops) ExprL flags) = SCEVAddRecExpr ops ExprL 0"
| "getStepRecurrence S = S"

text \<open>
  \<open>AddRecLoopReplacer\<close>: rewrite the add recurrences of \<open>OldL\<close> into
  recurrences of \<open>NewL\<close>.  The result is the rewritten expression and the
  \<open>Valid\<close> flag of the rewriter, which starts true and is cleared at a
  recurrence of a loop inside \<open>OldL\<close> that cannot be replaced by its start.
  \<open>visitAddRecExpr\<close> is the source's; on every other expression the visitor
  base class rewrites the operands and rebuilds the expression.
\<close>

function visit :: "analyses \<Rightarrow> bool \<Rightarrow> loop \<Rightarrow> loop \<Rightarrow> scev \<Rightarrow> scev \<times> bool" where
  "visit A UseMax OldL NewL (SCEVAddRecExpr ops ExprL flags) =
     (let Expr = SCEVAddRecExpr ops ExprL flags
      in if ExprL = OldL then (SCEVAddRecExpr ops NewL flags, True)
         else if Loop_contains A OldL ExprL
         then let Pos = SE_isKnownPositive A (getStepRecurrence Expr)
              in if \<not> UseMax \<or> \<not> Pos \<or> \<not> isAffine Expr then (Expr, False)
                 else visit A UseMax OldL NewL (getStart Expr)
         else let rs = map (visit A UseMax OldL NewL) ops
              in (SCEVAddRecExpr (map fst rs) ExprL flags, list_all snd rs))"
| "visit A UseMax OldL NewL SCEVCouldNotCompute = (SCEVCouldNotCompute, True)"
| "visit A UseMax OldL NewL (SCEVConstant T c) = (SCEVConstant T c, True)"
| "visit A UseMax OldL NewL (SCEVUnknown T v) = (SCEVUnknown T v, True)"
| "visit A UseMax OldL NewL (SCEVTruncateExpr Op T) =
     (let r = visit A UseMax OldL NewL Op in (SCEVTruncateExpr (fst r) T, snd r))"
| "visit A UseMax OldL NewL (SCEVZeroExtendExpr Op T) =
     (let r = visit A UseMax OldL NewL Op in (SCEVZeroExtendExpr (fst r) T, snd r))"
| "visit A UseMax OldL NewL (SCEVSignExtendExpr Op T) =
     (let r = visit A UseMax OldL NewL Op in (SCEVSignExtendExpr (fst r) T, snd r))"
| "visit A UseMax OldL NewL (SCEVAddExpr ops) =
     (let rs = map (visit A UseMax OldL NewL) ops
      in (SCEVAddExpr (map fst rs), list_all snd rs))"
| "visit A UseMax OldL NewL (SCEVMulExpr ops) =
     (let rs = map (visit A UseMax OldL NewL) ops
      in (SCEVMulExpr (map fst rs), list_all snd rs))"
| "visit A UseMax OldL NewL (SCEVUDivExpr Lhs Rhs) =
     (let l = visit A UseMax OldL NewL Lhs; r = visit A UseMax OldL NewL Rhs
      in (SCEVUDivExpr (fst l) (fst r), snd l \<and> snd r))"
| "visit A UseMax OldL NewL (SCEVSMaxExpr ops) =
     (let rs = map (visit A UseMax OldL NewL) ops
      in (SCEVSMaxExpr (map fst rs), list_all snd rs))"
| "visit A UseMax OldL NewL (SCEVUMaxExpr ops) =
     (let rs = map (visit A UseMax OldL NewL) ops
      in (SCEVUMaxExpr (map fst rs), list_all snd rs))"
| "visit A UseMax OldL NewL (SCEVSMinExpr ops) =
     (let rs = map (visit A UseMax OldL NewL) ops
      in (SCEVSMinExpr (map fst rs), list_all snd rs))"
| "visit A UseMax OldL NewL (SCEVUMinExpr ops) =
     (let rs = map (visit A UseMax OldL NewL) ops
      in (SCEVUMinExpr (map fst rs), list_all snd rs))"
  by pat_completeness auto

termination visit
  apply (relation "measure (\<lambda>(A, UseMax, OldL, NewL, S). size S)")
                apply simp
  subgoal for A UseMax OldL NewL ops ExprL flags
    by (cases ops) auto
               apply (auto simp: less_Suc_eq_le size_list_estimation')
  done

text \<open>
  \<open>SCEVExprContains\<close>, the traversal of scalar evolution: does the predicate
  hold of the expression or of one of its sub-expressions?
\<close>

fun SCEVExprContains :: "(scev \<Rightarrow> bool) \<Rightarrow> scev \<Rightarrow> bool" where
  "SCEVExprContains P (SCEVAddRecExpr ops ExprL flags) =
     (P (SCEVAddRecExpr ops ExprL flags) \<or> list_ex (SCEVExprContains P) ops)"
| "SCEVExprContains P (SCEVTruncateExpr Op T) =
     (P (SCEVTruncateExpr Op T) \<or> SCEVExprContains P Op)"
| "SCEVExprContains P (SCEVZeroExtendExpr Op T) =
     (P (SCEVZeroExtendExpr Op T) \<or> SCEVExprContains P Op)"
| "SCEVExprContains P (SCEVSignExtendExpr Op T) =
     (P (SCEVSignExtendExpr Op T) \<or> SCEVExprContains P Op)"
| "SCEVExprContains P (SCEVAddExpr ops) =
     (P (SCEVAddExpr ops) \<or> list_ex (SCEVExprContains P) ops)"
| "SCEVExprContains P (SCEVMulExpr ops) =
     (P (SCEVMulExpr ops) \<or> list_ex (SCEVExprContains P) ops)"
| "SCEVExprContains P (SCEVUDivExpr Lhs Rhs) =
     (P (SCEVUDivExpr Lhs Rhs) \<or> SCEVExprContains P Lhs \<or> SCEVExprContains P Rhs)"
| "SCEVExprContains P (SCEVSMaxExpr ops) =
     (P (SCEVSMaxExpr ops) \<or> list_ex (SCEVExprContains P) ops)"
| "SCEVExprContains P (SCEVUMaxExpr ops) =
     (P (SCEVUMaxExpr ops) \<or> list_ex (SCEVExprContains P) ops)"
| "SCEVExprContains P (SCEVSMinExpr ops) =
     (P (SCEVSMinExpr ops) \<or> list_ex (SCEVExprContains P) ops)"
| "SCEVExprContains P (SCEVUMinExpr ops) =
     (P (SCEVUMinExpr ops) \<or> list_ex (SCEVExprContains P) ops)"
| "SCEVExprContains P S = P S"

text \<open>The lambda \<open>HasNonLinearDominanceRelation\<close> of \<open>accessDiffIsPositive\<close>.\<close>

fun HasNonLinearDominanceRelation :: "analyses \<Rightarrow> block option \<Rightarrow> scev \<Rightarrow> bool" where
  "HasNonLinearDominanceRelation A L0Header (SCEVAddRecExpr ops ExprL flags) =
     (\<not> DT_dominates A L0Header (Loop_getHeader A ExprL)
      \<and> \<not> DT_dominates A (Loop_getHeader A ExprL) L0Header)"
| "HasNonLinearDominanceRelation A L0Header S = False"

text \<open>\<open>LoopFuser::accessDiffIsPositive\<close>.\<close>

definition accessDiffIsPositive ::
  "analyses \<Rightarrow> loop \<Rightarrow> loop \<Rightarrow> inst \<Rightarrow> inst \<Rightarrow> bool \<Rightarrow> bool" where
  "accessDiffIsPositive A L0 L1 I0 I1 EqualIsInvalid =
     (case (getLoadStorePointerOperand A I0, getLoadStorePointerOperand A I1) of
        (Some Ptr0, Some Ptr1) \<Rightarrow>
          let SCEVPtr0 = SE_getSCEVAtScope A Ptr0 L0;
              SCEVPtr1 = SE_getSCEVAtScope A Ptr1 L1;
              Rewriter = visit A True L0 L1 SCEVPtr0
          in if \<not> snd Rewriter then False
             else if SCEVExprContains
                       (HasNonLinearDominanceRelation A (Loop_getHeader A L0)) SCEVPtr1
             then False
             else let Pred = (if EqualIsInvalid then ICMP_SGT else ICMP_SGE)
                  in SE_isKnownPredicate A Pred (fst Rewriter) SCEVPtr1
      | _ \<Rightarrow> False)"

text \<open>
  \<open>LoopFuser::dependencesAllowFusion\<close> on two instructions.  The source's case
  \<open>FUSION_DEPENDENCE_ANALYSIS_ALL\<close> calls the function again with each of the two
  other choices; each of these calls is written out here.
\<close>

definition dependencesAllowFusionInst ::
  "analyses \<Rightarrow> FusionCandidate \<Rightarrow> FusionCandidate \<Rightarrow> inst \<Rightarrow> inst \<Rightarrow> bool
   \<Rightarrow> FusionDependenceAnalysisChoice \<Rightarrow> bool" where
  "dependencesAllowFusionInst A FC0 FC1 I0 I1 AnyDep DepChoice =
     (case DepChoice of
        FUSION_DEPENDENCE_ANALYSIS_SCEV \<Rightarrow>
          accessDiffIsPositive A (FCLoop FC0) (FCLoop FC1) I0 I1 AnyDep
      | FUSION_DEPENDENCE_ANALYSIS_DA \<Rightarrow> \<not> DI_depends A I0 I1
      | FUSION_DEPENDENCE_ANALYSIS_ALL \<Rightarrow>
          accessDiffIsPositive A (FCLoop FC0) (FCLoop FC1) I0 I1 AnyDep
          \<or> \<not> DI_depends A I0 I1)"

text \<open>
  \<open>LoopFuser::dependencesAllowFusion\<close> on two candidates.  Each of the source's
  loops returns false, after counting \<open>InvalidDependencies\<close>, at the first pair
  that fails; the last loop looks for a value defined in the first loop and used in
  the second.
\<close>

definition dependencesAllowFusion ::
  "analyses \<Rightarrow> FusionCandidate \<Rightarrow> FusionCandidate \<Rightarrow> diag \<Rightarrow> bool \<times> diag" where
  "dependencesAllowFusion A FC0 FC1 d =
     (let dep = (\<lambda>I0 I1. dependencesAllowFusionInst A FC0 FC1 I0 I1 False
                              (FusionDependenceAnalysis A))
      in if \<not> list_all (\<lambda>WriteL0.
                  list_all (\<lambda>WriteL1. dep WriteL0 WriteL1) (MemWrites FC1)
                  \<and> list_all (\<lambda>ReadL1. dep WriteL0 ReadL1) (MemReads FC1))
                (MemWrites FC0)
         then (False, incr InvalidDependencies d)
         else if \<not> list_all (\<lambda>WriteL1.
                  list_all (\<lambda>WriteL0. dep WriteL0 WriteL1) (MemWrites FC0)
                  \<and> list_all (\<lambda>ReadL0. dep ReadL0 WriteL1) (MemReads FC0))
                (MemWrites FC1)
         then (False, incr InvalidDependencies d)
         else if list_ex (\<lambda>BB.
                  list_ex (\<lambda>I.
                    list_ex (\<lambda>Op. Value_isInstruction A Op
                               \<and> Loop_containsBlock A (FCLoop FC0) (Inst_getParent A Op))
                      (Inst_operands A I))
                    (BB_instructions A BB))
                (Loop_blocks A (FCLoop FC1))
         then (False, incr InvalidDependencies d)
         else (True, d))"

subsection \<open>The checks on a pair of candidates\<close>

text \<open>
  The body of the inner loop of \<open>LoopFuser::fuseCandidates\<close> up to the point
  where the transformation starts: the legality and profitability checks on
  \<open>FC0\<close> and \<open>FC1\<close>.  The result is false where the source reports and
  reaches \<open>continue\<close>, and true where it goes on to fuse.
\<close>

definition checkFusion ::
  "analyses \<Rightarrow> FusionCandidate \<Rightarrow> FusionCandidate \<Rightarrow> diag \<Rightarrow> bool \<times> diag" where
  "checkFusion A FC0 FC1 d =
     (let tc = identicalTripCounts (SE_getBackedgeTakenCount A) FC0 FC1 d
      in if \<not> fst tc
         then (False, reportLoopFusion OptimizationRemarkMissed FC0 FC1 NonEqualTripCount (snd tc))
         else if \<not> isAdjacent FC0 FC1
         then (False, reportLoopFusion OptimizationRemarkMissed FC0 FC1 NonAdjacent (snd tc))
         else if (case (GuardBranch FC0, GuardBranch FC1) of
                    (Some G0, Some G1) \<Rightarrow> \<not> haveIdenticalGuards A FC0 G0 FC1 G1
                  | _ \<Rightarrow> False)
         then (False, reportLoopFusion OptimizationRemarkMissed FC0 FC1 NonIdenticalGuards (snd tc))
         else if \<not> isEmptyPreheader A FC1
         then (False, reportLoopFusion OptimizationRemarkMissed FC0 FC1 NonEmptyPreheader (snd tc))
         else if GuardBranch FC0 \<noteq> None \<and> \<not> isEmptyExitBlock A FC0
         then (False, reportLoopFusion OptimizationRemarkMissed FC0 FC1 NonEmptyExitBlock (snd tc))
         else if (case GuardBranch FC1 of
                    Some G1 \<Rightarrow> \<not> isEmptyGuardBlock A FC1 G1
                  | None \<Rightarrow> False)
         then (False, reportLoopFusion OptimizationRemarkMissed FC0 FC1 NonEmptyGuardBlock (snd tc))
         else
           let dep = dependencesAllowFusion A FC0 FC1 (snd tc)
           in if \<not> fst dep
              then (False,
                    reportLoopFusion OptimizationRemarkMissed FC0 FC1 InvalidDependencies (snd dep))
              else
                let BeneficialToFuse = isBeneficialFusion FC0 FC1
                in if \<not> BeneficialToFuse
                   then (False,
                         reportLoopFusion OptimizationRemarkMissed FC0 FC1 FusionNotBeneficial
                           (snd dep))
                   else (True, snd dep))"

subsection \<open>The loops of fuseCandidates\<close>

text \<open>
  The state of the fuser that the loops of \<open>fuseCandidates\<close> change: the IR
  with its analyses, the diagnostics, the loops the loop-depth tree has recorded as
  removed, and the local flag \<open>Fused\<close>.
\<close>

record fuser =
  IR :: analyses
  Diag :: diag
  RemovedLoops :: "loop set"
  Fused :: bool

text \<open>
  The rewriting of the control-flow graph is not part of this development.
  \<open>performFusion\<close> followed by the construction of the candidate of the fused
  loop is a parameter: from the state and the two candidates, the new candidate and
  the state after the rewrite.
\<close>

type_synonym fusion = "fuser \<Rightarrow> FusionCandidate \<Rightarrow> FusionCandidate \<Rightarrow> FusionCandidate \<times> fuser"

text \<open>
  What \<open>performFusion\<close> expects of the pair it is given.  It hands a guarded
  \<open>FC0\<close> to \<open>fuseGuardedLoops\<close>; on the path for an unguarded \<open>FC0\<close>
  its first statement is \<open>assert(FC1.Preheader == FC0.ExitBlock)\<close>.
\<close>

definition performFusion_assertion :: "FusionCandidate \<Rightarrow> FusionCandidate \<Rightarrow> bool" where
  "performFusion_assertion FC0 FC1 =
     (case GuardBranch FC0 of
        Some G \<Rightarrow> True
      | None \<Rightarrow> Preheader FC1 = ExitBlock FC0)"

text \<open>
  A candidate set is a \<open>std::set\<close> ordered by \<open>FusionCandidateCompare\<close>: here
  the list of its elements in order, an iterator being a position.  \<open>erase\<close>
  removes the element at a position.  \<open>insert\<close> returns the new list, the
  position of the element, and whether it was inserted: it is not when an element
  equivalent under the comparator is already there.
\<close>

definition erase_at :: "nat \<Rightarrow> 'a list \<Rightarrow> 'a list" where
  "erase_at n xs = take n xs @ drop (Suc n) xs"

fun CandidateSet_insert ::
  "(FusionCandidate \<Rightarrow> FusionCandidate \<Rightarrow> fusion_error + bool) \<Rightarrow> FusionCandidate
   \<Rightarrow> FusionCandidate list \<Rightarrow> fusion_error + (FusionCandidate list \<times> nat \<times> bool)" where
  "CandidateSet_insert cmp x [] = Inr ([x], 0, True)"
| "CandidateSet_insert cmp x (y # ys) =
     (case cmp x y of
        Inl e \<Rightarrow> Inl e
      | Inr True \<Rightarrow> Inr (x # y # ys, 0, True)
      | Inr False \<Rightarrow>
          (case cmp y x of
             Inl e \<Rightarrow> Inl e
           | Inr False \<Rightarrow> Inr (y # ys, 0, False)
           | Inr True \<Rightarrow>
               (case CandidateSet_insert cmp x ys of
                  Inl e \<Rightarrow> Inl e
                | Inr (zs, p, b) \<Rightarrow> Inr (y # zs, Suc p, b))))"

lemma CandidateSet_insert_length:
  "CandidateSet_insert cmp x xs = Inr (ys, p, b) \<Longrightarrow> length ys \<le> Suc (length xs)"
  by (induction xs arbitrary: ys p) (auto split: sum.splits bool.splits)

lemma erase_at_length: "n < length xs \<Longrightarrow> length (erase_at n xs) = length xs - 1"
  by (auto simp: erase_at_def)

text \<open>
  The inner loop of \<open>fuseCandidates\<close>, over \<open>FC1\<close>.  \<open>FC1\<close> starts
  one past \<open>FC0\<close>, and after a fusion both iterators are set to the fused
  candidate before \<open>FC1\<close> is advanced, so \<open>FC0 < FC1\<close> holds whenever the
  loop condition is tested; the loop returns the set, \<open>FC0\<close> and the state.
\<close>

function fuseInner ::
  "fusion \<Rightarrow> FusionCandidate list \<Rightarrow> nat \<Rightarrow> nat \<Rightarrow> fuser
   \<Rightarrow> fusion_error + (FusionCandidate list \<times> nat \<times> fuser)" where
  "fuseInner performFusion CandidateSet FC0 FC1 S =
     (if FC0 < FC1 \<and> FC1 < length CandidateSet
      then
        let c = checkFusion (IR S) (CandidateSet ! FC0) (CandidateSet ! FC1) (Diag S)
        in if \<not> fst c
           then fuseInner performFusion CandidateSet FC0 (FC1 + 1) (S\<lparr>Diag := snd c\<rparr>)
           else
             let S1 = S\<lparr>Diag := reportLoopFusion OptimizationRemark (CandidateSet ! FC0)
                                  (CandidateSet ! FC1) FuseCounter (snd c)\<rparr>;
                 F = performFusion S1 (CandidateSet ! FC0) (CandidateSet ! FC1);
                 S2 = (snd F)\<lparr>RemovedLoops :=
                                insert (FCLoop (CandidateSet ! FC1)) (RemovedLoops (snd F))\<rparr>;
                 Erased = erase_at (FC1 - 1) (erase_at FC0 CandidateSet)
             in case CandidateSet_insert (FusionCandidateCompare (DT_dominates (IR S2)))
                       (fst F) Erased of
                  Inl e \<Rightarrow> Inl e
                | Inr (CandidateSet', InsertPos, inserted) \<Rightarrow>
                    fuseInner performFusion CandidateSet' InsertPos (InsertPos + 1)
                      (S2\<lparr>Fused := True\<rparr>)
      else Inr (CandidateSet, FC0, S))"
  by pat_completeness auto
termination
  apply (relation "measures [\<lambda>(P, CS, i, j, S). length CS, \<lambda>(P, CS, i, j, S). length CS - j]")
    apply simp
   apply simp apply arith
  apply (auto dest!: CandidateSet_insert_length simp: erase_at_length)
  done

declare fuseInner.simps [simp del]

lemma fuseInner_length:
  "fuseInner P CS i j S = Inr (CS', i', S') \<Longrightarrow>
   length CS' \<le> length CS \<and> (length CS' = length CS \<longrightarrow> i' = i)"
proof (induction P CS i j S rule: fuseInner.induct)
  case (1 P CS i j S)
  show ?case
  proof (cases "i < j \<and> j < length CS")
    case False
    with "1.prems" show ?thesis by (auto simp: fuseInner.simps)
  next
    case True
    note ij = this
    show ?thesis
    proof (cases "fst (checkFusion (IR S) (CS ! i) (CS ! j) (Diag S))")
      case False
      with ij "1.prems" "1.IH"(1) show ?thesis
        by (simp add: Let_def fuseInner.simps [of P CS i j])
    next
      case c: True
      let ?S1 = "S\<lparr>Diag := reportLoopFusion OptimizationRemark (CS ! i)
                                  (CS ! j) FuseCounter (snd (checkFusion (IR S) (CS ! i) (CS ! j) (Diag S)))\<rparr>"
      let ?F = "P ?S1 (CS ! i) (CS ! j)"
      let ?S2 = "(snd ?F)\<lparr>RemovedLoops := insert (FCLoop (CS ! j)) (RemovedLoops (snd ?F))\<rparr>"
      let ?E = "erase_at (j - 1) (erase_at i CS)"
      from ij c "1.prems" obtain CS2 p b where
        ins: "CandidateSet_insert (FusionCandidateCompare (DT_dominates (IR ?S2))) (fst ?F) ?E = Inr (CS2, p, b)"
        and rec: "fuseInner P CS2 p (p + 1) (?S2\<lparr>Fused := True\<rparr>) = Inr (CS', i', S')"
        by (auto simp: Let_def fuseInner.simps [of P CS i j] split: sum.splits)
      from ij have "length ?E = length CS - 2" by (auto simp: erase_at_def)
      with CandidateSet_insert_length[OF ins] ij have lt: "length CS2 < length CS" by arith
      from c have c': "\<not> \<not> fst (checkFusion (IR S) (CS ! i) (CS ! j) (Diag S))" by simp
      from "1.IH"(2)[OF ij refl c' refl refl refl refl ins refl refl rec]
      have "length CS' \<le> length CS2" by simp
      with lt show ?thesis by simp
    qed
  qed
qed

text \<open>The outer loop of \<open>fuseCandidates\<close>, over \<open>FC0\<close>.\<close>

function fuseOuter ::
  "fusion \<Rightarrow> FusionCandidate list \<Rightarrow> nat \<Rightarrow> fuser
   \<Rightarrow> fusion_error + (FusionCandidate list \<times> fuser)" where
  "fuseOuter performFusion CandidateSet FC0 S =
     (if FC0 < length CandidateSet
      then case fuseInner performFusion CandidateSet FC0 (FC0 + 1) S of
             Inl e \<Rightarrow> Inl e
           | Inr (CandidateSet', FC0', S') \<Rightarrow> fuseOuter performFusion CandidateSet' (FC0' + 1) S'
      else Inr (CandidateSet, S))"
  by pat_completeness auto
termination
  apply (relation "measures [\<lambda>(P, CS, i, S). length CS, \<lambda>(P, CS, i, S). length CS - i]")
   apply simp
  apply (auto dest!: fuseInner_length)
  done


text \<open>
  \<open>LoopFuser::fuseCandidates\<close>: each candidate set in turn, sets with fewer
  than two candidates skipped.  The result is the flag \<open>Fused\<close>, the candidate
  sets and the state.
\<close>

definition fuseCandidateSet ::
  "fusion \<Rightarrow> FusionCandidate list \<Rightarrow> fuser
   \<Rightarrow> fusion_error + (FusionCandidate list \<times> fuser)" where
  "fuseCandidateSet performFusion CandidateSet S =
     (if length CandidateSet < 2 then Inr (CandidateSet, S)
      else fuseOuter performFusion CandidateSet 0 S)"

fun fuseCandidateSets ::
  "fusion \<Rightarrow> FusionCandidate list list \<Rightarrow> fuser
   \<Rightarrow> fusion_error + (FusionCandidate list list \<times> fuser)" where
  "fuseCandidateSets performFusion [] S = Inr ([], S)"
| "fuseCandidateSets performFusion (CandidateSet # Sets) S =
     (case fuseCandidateSet performFusion CandidateSet S of
        Inl e \<Rightarrow> Inl e
      | Inr (CandidateSet', S') \<Rightarrow>
          (case fuseCandidateSets performFusion Sets S' of
             Inl e \<Rightarrow> Inl e
           | Inr (Sets', S'') \<Rightarrow> Inr (CandidateSet' # Sets', S'')))"

definition fuseCandidates ::
  "fusion \<Rightarrow> FusionCandidate list list \<Rightarrow> fuser
   \<Rightarrow> fusion_error + (bool \<times> FusionCandidate list list \<times> fuser)" where
  "fuseCandidates performFusion FusionCandidates S =
     (case fuseCandidateSets performFusion FusionCandidates (S\<lparr>Fused := False\<rparr>) of
        Inl e \<Rightarrow> Inl e
      | Inr (Sets, S') \<Rightarrow> Inr (Fused S', Sets, S'))"

subsection \<open>The order of the checks, as the specification gives it\<close>

text \<open>
  The checks on a pair in the order the specification lists them, each with the
  statistic that names it and with its outcome; a check that does not apply to the
  pair (guard identity unless both loops are guarded, the exit block unless the
  first is guarded, the guard block unless the second is) passes.
  \<open>first_failure\<close> is the statistic of the first check of the list that fails.
\<close>

definition no_diag :: diag where
  "no_diag = \<lparr>stats = (\<lambda>s. 0), remarks = []\<rparr>"

definition fusion_checks ::
  "analyses \<Rightarrow> FusionCandidate \<Rightarrow> FusionCandidate \<Rightarrow> (statistic \<times> bool) list" where
  "fusion_checks A FC0 FC1 =
     [(NonEqualTripCount,
         fst (identicalTripCounts (SE_getBackedgeTakenCount A) FC0 FC1 no_diag)),
      (NonAdjacent, isAdjacent FC0 FC1),
      (NonIdenticalGuards,
         (case (GuardBranch FC0, GuardBranch FC1) of
            (Some G0, Some G1) \<Rightarrow> haveIdenticalGuards A FC0 G0 FC1 G1
          | _ \<Rightarrow> True)),
      (NonEmptyPreheader, isEmptyPreheader A FC1),
      (NonEmptyExitBlock, GuardBranch FC0 = None \<or> isEmptyExitBlock A FC0),
      (NonEmptyGuardBlock,
         (case GuardBranch FC1 of
            Some G1 \<Rightarrow> isEmptyGuardBlock A FC1 G1
          | None \<Rightarrow> True)),
      (InvalidDependencies, fst (dependencesAllowFusion A FC0 FC1 no_diag)),
      (FusionNotBeneficial, isBeneficialFusion FC0 FC1)]"

definition first_failure ::
  "analyses \<Rightarrow> FusionCandidate \<Rightarrow> FusionCandidate \<Rightarrow> statistic option" where
  "first_failure A FC0 FC1 =
     map_option fst (find (\<lambda>c. \<not> snd c) (fusion_checks A FC0 FC1))"

text \<open>
  The pairs of positions of a set of \<open>n\<close> candidates in the order of the two
  loops, and the remark a rejected pair gets.
\<close>

definition pairs_from :: "nat \<Rightarrow> nat \<Rightarrow> (nat \<times> nat) list" where
  "pairs_from i n = concat (map (\<lambda>k. map (Pair k) [Suc k..<n]) [i..<n])"

text \<open>The pairs whose first position is at least \<open>i\<close> and below \<open>m\<close>.\<close>

definition pairs_between :: "nat \<Rightarrow> nat \<Rightarrow> nat \<Rightarrow> (nat \<times> nat) list" where
  "pairs_between i m n = concat (map (\<lambda>k. map (Pair k) [Suc k..<n]) [i..<m])"

definition missed_remark ::
  "analyses \<Rightarrow> FusionCandidate list \<Rightarrow> nat \<times> nat \<Rightarrow> remark" where
  "missed_remark A CandidateSet p =
     \<lparr>RemarkKind = OptimizationRemarkMissed,
      RemarkName = the (first_failure A (CandidateSet ! fst p) (CandidateSet ! snd p)),
      Cand1 = Preheader (CandidateSet ! fst p),
      Cand2 = Preheader (CandidateSet ! snd p)\<rparr>"

subsection \<open>Example candidates\<close>

text \<open>
  Two loops in a row.  The first, unguarded, runs in blocks 1 to 3 and exits to
  block 4.  Block 4 holds the guard branch of the second loop, which either enters
  the preheader 5 or skips the loop to block 8.  Instruction 30 is a store in the
  first loop and instruction 31 a store in the second.
\<close>

definition ex_unguarded :: FusionCandidate where
  "ex_unguarded =
     \<lparr>Preheader = Some 1, Header = Some 2, ExitingBlock = Some 3, ExitBlock = Some 4,
      Latch = Some 3, FCLoop = 0, MemReads = [], MemWrites = [30], Valid = True,
      GuardBranch = None\<rparr>"

definition ex_guarded :: FusionCandidate where
  "ex_guarded =
     \<lparr>Preheader = Some 5, Header = Some 6, ExitingBlock = Some 7, ExitBlock = Some 8,
      Latch = Some 7, FCLoop = 1, MemReads = [], MemWrites = [31], Valid = True,
      GuardBranch =
        Some \<lparr>getParent = 4, getCondition = 40, getSuccessor0 = 5, getSuccessor1 = 8\<rparr>\<rparr>"

text \<open>
  A third loop, unguarded, whose preheader is block 8 and which loads with
  instruction 32, and the dominance relations of the straight-line region the three
  loops form: entry blocks 1, 4 and 8 in this order.
\<close>

definition ex_third :: FusionCandidate where
  "ex_third =
     \<lparr>Preheader = Some 8, Header = Some 9, ExitingBlock = Some 10, ExitBlock = Some 11,
      Latch = Some 10, FCLoop = 2, MemReads = [32], MemWrites = [], Valid = True,
      GuardBranch = None\<rparr>"

definition ex_DT :: domtree where
  "ex_DT A B = (case (A, B) of (Some a, Some b) \<Rightarrow> a \<le> b | _ \<Rightarrow> A = B)"

definition ex_PDT :: domtree where
  "ex_PDT A B = (case (A, B) of (Some a, Some b) \<Rightarrow> b \<le> a | _ \<Rightarrow> A = B)"

text \<open>
  The analyses of the example.  The two stores and the load go through the pointers
  50, 51 and 52, each the recurrence \<open>{%70,+,4}\<close> of its own loop.  Scalar
  evolution knows the trip count \<open>%100\<close> of the first two loops and not the
  third's, and it proves a comparison only between an expression and itself, where
  the comparison admits equality.  The dependence analysis reports a dependence
  between any two accesses.  The preheader 5 of the second loop holds two
  instructions.
\<close>

definition ex_ptr :: "loop \<Rightarrow> scev" where
  "ex_ptr l = SCEVAddRecExpr [SCEVUnknown PointerTy 70, SCEVConstant (IntegerTy 64) 4] l 0"

definition ex_A :: analyses where
  "ex_A =
     \<lparr>DT_dominates = ex_DT,
      PDT_dominates = ex_PDT,
      SE_getBackedgeTakenCount =
        (\<lambda>l. if l = 2 then SCEVCouldNotCompute else SCEVUnknown (IntegerTy 64) 100),
      SE_getSCEVAtScope = (\<lambda>v l. ex_ptr l),
      SE_isKnownPositive = (\<lambda>S. S = SCEVConstant (IntegerTy 64) 4),
      SE_isKnownPredicate =
        (\<lambda>p a b. a = b \<and> p \<in> {ICMP_EQ, ICMP_UGE, ICMP_ULE, ICMP_SGE, ICMP_SLE}),
      DI_depends = (\<lambda>I0 I1. True),
      Loop_contains = (\<lambda>l l'. l = l'),
      Loop_containsBlock =
        (\<lambda>l b. b \<in> (if l = 0 then {Some 2, Some 3} else if l = 1 then {Some 6, Some 7}
                        else {Some 9, Some 10})),
      Loop_getHeader = (\<lambda>l. if l = 0 then Some 2 else if l = 1 then Some 6 else Some 9),
      Loop_blocks = (\<lambda>l. if l = 0 then [2, 3] else if l = 1 then [6, 7] else [9, 10]),
      BB_instructions =
        (\<lambda>b. if b = 3 then [50, 30] else if b = 7 then [51, 31]
             else if b = 10 then [52, 32] else []),
      BB_size = (\<lambda>b. if b = Some 5 then 2 else 1),
      Inst_operands =
        (\<lambda>i. if i = 30 then [50] else if i = 31 then [51] else if i = 32 then [52] else []),
      Inst_getParent =
        (\<lambda>i. if i = 50 \<or> i = 30 then Some 3 else if i = 51 \<or> i = 31 then Some 7
             else if i = 52 \<or> i = 32 then Some 10 else None),
      Inst_isIdenticalTo = (\<lambda>i j. i = j),
      Value_isInstruction = (\<lambda>i. i \<in> {30, 31, 32, 50, 51, 52}),
      getLoadStorePointerOperand =
        (\<lambda>i. if i = 30 then Some 50 else if i = 31 then Some 51
             else if i = 32 then Some 52 else None),
      FusionDependenceAnalysis = FUSION_DEPENDENCE_ANALYSIS_ALL\<rparr>"

text \<open>
  The candidate set of the three loops, the state of the fuser before the pass, and
  a stand-in for the rewriting, which is not reached in the example.
\<close>

definition ex_set :: "FusionCandidate list" where
  "ex_set = [ex_unguarded, ex_guarded, ex_third]"

definition ex_fuser :: fuser where
  "ex_fuser = \<lparr>IR = ex_A, Diag = no_diag, RemovedLoops = {}, Fused = False\<rparr>"

definition ex_fusion :: fusion where
  "ex_fusion S FC0 FC1 = (FC0, S)"

text \<open>
  The same IR with nothing between the first two loops: every block holds its
  terminator only, and the condition 40 of the guard in block 4 is an instruction
  of block 0, ahead of the first loop.
\<close>

definition ex_A_empty :: analyses where
  "ex_A_empty =
     ex_A\<lparr>BB_size := (\<lambda>b. 1),
          Value_isInstruction := (\<lambda>i. i \<in> {30, 31, 32, 40, 50, 51, 52}),
          Inst_getParent := (\<lambda>i. if i = 40 then Some 0 else Inst_getParent ex_A i)\<rparr>"

text \<open>
  Three unguarded loops in a row.  The first is \<open>ex_unguarded\<close>.  Block 4
  lies between it and the preheader 5 of the second, which stores with instruction
  31 and exits to block 8, the preheader of the third.  The third loads with
  instruction 32 the element the second stored, and has the trip count of the other
  two.
\<close>

definition ex_second :: FusionCandidate where
  "ex_second =
     \<lparr>Preheader = Some 5, Header = Some 6, ExitingBlock = Some 7, ExitBlock = Some 8,
      Latch = Some 7, FCLoop = 1, MemReads = [], MemWrites = [31], Valid = True,
      GuardBranch = None\<rparr>"

definition ex_fourth :: FusionCandidate where
  "ex_fourth =
     \<lparr>Preheader = Some 8, Header = Some 9, ExitingBlock = Some 10, ExitBlock = Some 11,
      Latch = Some 10, FCLoop = 3, MemReads = [32], MemWrites = [], Valid = True,
      GuardBranch = None\<rparr>"

definition ex_row :: "FusionCandidate list" where
  "ex_row = [ex_unguarded, ex_second, ex_fourth]"

section \<open>Loop predication (LoopPredication.cpp)\<close>

subsection \<open>Predicates and constants\<close>

text \<open>
  The helpers of \<open>ICmpInst\<close> on predicates belong to the IR library and not to
  the pass.  \<open>getSwappedPredicate\<close> is the predicate of the comparison with its
  operands exchanged and \<open>getInversePredicate\<close> the predicate of its negation.
  \<open>getFlippedStrictnessPredicate\<close> turns a strict comparison into the non-strict
  one of the same direction and signedness, and back: these are the values the
  header of LoopPredication.cpp relies on when it lists the widened conditions
  (\<open>latchLimit u<= ...\<close> for a \<open>u<\<close> latch, \<open>latchLimit u>= 1\<close> for a
  \<open>u>\<close> latch, and so on).  It has no value on an equality, which a latch
  check never holds; the equalities are left as they are here.
\<close>

fun getSwappedPredicate :: "predicate \<Rightarrow> predicate" where
  "getSwappedPredicate ICMP_EQ = ICMP_EQ"
| "getSwappedPredicate ICMP_NE = ICMP_NE"
| "getSwappedPredicate ICMP_UGT = ICMP_ULT"
| "getSwappedPredicate ICMP_UGE = ICMP_ULE"
| "getSwappedPredicate ICMP_ULT = ICMP_UGT"
| "getSwappedPredicate ICMP_ULE = ICMP_UGE"
| "getSwappedPredicate ICMP_SGT = ICMP_SLT"
| "getSwappedPredicate ICMP_SGE = ICMP_SLE"
| "getSwappedPredicate ICMP_SLT = ICMP_SGT"
| "getSwappedPredicate ICMP_SLE = ICMP_SGE"

fun getInversePredicate :: "predicate \<Rightarrow> predicate" where
  "getInversePredicate ICMP_EQ = ICMP_NE"
| "getInversePredicate ICMP_NE = ICMP_EQ"
| "getInversePredicate ICMP_UGT = ICMP_ULE"
| "getInversePredicate ICMP_UGE = ICMP_ULT"
| "getInversePredicate ICMP_ULT = ICMP_UGE"
| "getInversePredicate ICMP_ULE = ICMP_UGT"
| "getInversePredicate ICMP_SGT = ICMP_SLE"
| "getInversePredicate ICMP_SGE = ICMP_SLT"
| "getInversePredicate ICMP_SLT = ICMP_SGE"
| "getInversePredicate ICMP_SLE = ICMP_SGT"

fun getFlippedStrictnessPredicate :: "predicate \<Rightarrow> predicate" where
  "getFlippedStrictnessPredicate ICMP_UGT = ICMP_UGE"
| "getFlippedStrictnessPredicate ICMP_UGE = ICMP_UGT"
| "getFlippedStrictnessPredicate ICMP_ULT = ICMP_ULE"
| "getFlippedStrictnessPredicate ICMP_ULE = ICMP_ULT"
| "getFlippedStrictnessPredicate ICMP_SGT = ICMP_SGE"
| "getFlippedStrictnessPredicate ICMP_SGE = ICMP_SGT"
| "getFlippedStrictnessPredicate ICMP_SLT = ICMP_SLE"
| "getFlippedStrictnessPredicate ICMP_SLE = ICMP_SLT"
| "getFlippedStrictnessPredicate ICMP_EQ = ICMP_EQ"
| "getFlippedStrictnessPredicate ICMP_NE = ICMP_NE"

text \<open>
  The value of a constant is kept as a signed integer: one is 1 and the constant
  with all bits set is -1.  \<open>getActiveBits\<close> counts the bits up to the highest
  one that is set, in a constant of \<open>w\<close> bits.
\<close>

fun isOne :: "scev \<Rightarrow> bool" where
  "isOne (SCEVConstant T c) = (c = 1)"
| "isOne S = False"

fun isAllOnesValue :: "scev \<Rightarrow> bool" where
  "isAllOnesValue (SCEVConstant T c) = (c = - 1)"
| "isAllOnesValue S = False"

fun bit_length :: "nat \<Rightarrow> nat" where
  "bit_length n = (if n = 0 then 0 else Suc (bit_length (n div 2)))"

declare bit_length.simps [simp del]

definition getActiveBits :: "nat \<Rightarrow> int \<Rightarrow> nat" where
  "getActiveBits w c = (if c < 0 then w else bit_length (nat c))"

text \<open>The type of an expression: that of a cast, and else that of the first operand.\<close>

fun getType :: "scev \<Rightarrow> ty" where
  "getType (SCEVConstant T c) = T"
| "getType (SCEVUnknown T v) = T"
| "getType (SCEVTruncateExpr Op T) = T"
| "getType (SCEVZeroExtendExpr Op T) = T"
| "getType (SCEVSignExtendExpr Op T) = T"
| "getType (SCEVAddExpr (Op # ops)) = getType Op"
| "getType (SCEVMulExpr (Op # ops)) = getType Op"
| "getType (SCEVUDivExpr Lhs Rhs) = getType Rhs"
| "getType (SCEVAddRecExpr (Op # ops) ExprL flags) = getType Op"
| "getType (SCEVSMaxExpr (Op # ops)) = getType Op"
| "getType (SCEVUMaxExpr (Op # ops)) = getType Op"
| "getType (SCEVSMinExpr (Op # ops)) = getType Op"
| "getType (SCEVUMinExpr (Op # ops)) = getType Op"
| "getType S = IntegerTy 0"

text \<open>
  The builders of scalar evolution the pass calls on loop-invariant operands.  The
  engine simplifies what it builds; the expressions are kept here as they are
  built, which has the same value.
\<close>

definition getOne :: "ty \<Rightarrow> scev" where
  "getOne T = SCEVConstant T 1"

definition getAddExpr :: "scev \<Rightarrow> scev \<Rightarrow> scev" where
  "getAddExpr LHS RHS = SCEVAddExpr [LHS, RHS]"

definition getMinusSCEV :: "scev \<Rightarrow> scev \<Rightarrow> scev" where
  "getMinusSCEV LHS RHS = SCEVAddExpr [LHS, SCEVMulExpr [SCEVConstant (getType RHS) (- 1), RHS]]"

subsection \<open>Values\<close>

text \<open>
  Where the pass inserts what it emits: before the guard it is widening, or before
  the terminator of the loop's preheader.
\<close>

datatype insert_point = AtGuard | AtPreheaderTerminator

text \<open>
  The IR values the pass reads and creates.  A condition of a guard is built from
  \<open>and\<close> instructions, calls to the widenable-condition intrinsic, integer
  comparisons and other values, each with its address.  What the pass creates is
  kept as the call that creates it: the two boolean constants of the builder, the
  code the expander emits for an expression, and the comparisons and conjunctions
  of the builder, each with its insertion point.  Equality of values stands for
  equality of pointers.
\<close>

datatype val =
    And inst val val
  | ICmp inst predicate val val
  | WidenableCondition inst
  | OtherValue inst
  | ConstantTrue
  | ConstantFalse
  | Expanded scev ty insert_point
  | CreateICmp predicate val val insert_point
  | CreateAnd val val insert_point

text \<open>\<open>m_And\<close> and \<open>dyn_cast<ICmpInst>\<close>, and the intrinsic matcher.\<close>

fun match_And :: "val \<Rightarrow> (val \<times> val) option" where
  "match_And (And a LHS RHS) = Some (LHS, RHS)"
| "match_And (CreateAnd LHS RHS pt) = Some (LHS, RHS)"
| "match_And V = None"

fun as_ICmpInst :: "val \<Rightarrow> (predicate \<times> val \<times> val) option" where
  "as_ICmpInst (ICmp a P LHS RHS) = Some (P, LHS, RHS)"
| "as_ICmpInst (CreateICmp P LHS RHS pt) = Some (P, LHS, RHS)"
| "as_ICmpInst V = None"

fun is_widenable_condition :: "val \<Rightarrow> bool" where
  "is_widenable_condition (WidenableCondition a) = True"
| "is_widenable_condition V = False"

subsection \<open>The pass object and its analyses\<close>

text \<open>\<open>struct LoopICmp\<close>: the check \<open>IV Pred Limit\<close>.\<close>

record LoopICmp =
  Pred :: predicate
  IV :: scev
  Limit :: scev

text \<open>What the pass needs to know of a load: see \<open>isLoopInvariantValue\<close>.\<close>

record load_inst =
  isUnordered :: bool
  getPointerOperand :: inst
  hasInvariantLoadMetadata :: bool

text \<open>
  The members of \<open>class LoopPredication\<close> (\<open>LP_L\<close> is the loop \<open>L\<close>,
  \<open>LatchCheck\<close> the parsed latch check), the two options the modelled functions
  read, and the queries they make to scalar evolution, the loop, alias analysis and
  the data layout.  \<open>Value_asLoadInst\<close> is \<open>dyn_cast<LoadInst>\<close> on the value
  of an unknown.
\<close>

record predication =
  LP_L :: loop
  LatchCheck :: LoopICmp
  EnableIVTruncation :: bool
  EnableCountDownLoop :: bool
  SE_getSCEV :: "val \<Rightarrow> scev"
  SE_isLoopInvariant :: "scev \<Rightarrow> loop \<Rightarrow> bool"
  SE_isLoopEntryGuardedByCond :: "loop \<Rightarrow> predicate \<Rightarrow> scev \<Rightarrow> scev \<Rightarrow> bool"
  SE_isMonotonicPredicate :: "scev \<Rightarrow> predicate \<Rightarrow> bool"
  SE_getTruncateExpr :: "scev \<Rightarrow> ty \<Rightarrow> scev"
  SE_getPostIncExpr :: "scev \<Rightarrow> scev"
  isSafeToExpandAt :: "scev \<Rightarrow> insert_point \<Rightarrow> bool"
  Loop_isLoopInvariant :: "val \<Rightarrow> bool"
  Loop_hasLoopInvariantOperands :: "inst \<Rightarrow> bool"
  Value_asLoadInst :: "inst \<Rightarrow> load_inst option"
  AA_pointsToConstantMemory :: "inst \<Rightarrow> bool"
  DL_getTypeSizeInBits :: "ty \<Rightarrow> nat"

subsection \<open>Parsing a comparison\<close>

text \<open>\<open>LoopPredication::parseLoopICmp\<close>, on the predicate and operands of \<open>ICI\<close>.\<close>

definition parseLoopICmp :: "predication \<Rightarrow> predicate \<Rightarrow> val \<Rightarrow> val \<Rightarrow> LoopICmp option" where
  "parseLoopICmp E P LHS RHS =
     (let LHSS = SE_getSCEV E LHS
      in if LHSS = SCEVCouldNotCompute then None
         else
           let RHSS = SE_getSCEV E RHS
           in if RHSS = SCEVCouldNotCompute then None
              else
                let swap = SE_isLoopInvariant E LHSS (LP_L E);
                    LHSS' = (if swap then RHSS else LHSS);
                    RHSS' = (if swap then LHSS else RHSS);
                    P' = (if swap then getSwappedPredicate P else P)
                in case LHSS' of
                     SCEVAddRecExpr ops ExprL flags \<Rightarrow>
                       if ExprL \<noteq> LP_L E then None
                       else Some \<lparr>Pred = P', IV = LHSS', Limit = RHSS'\<rparr>
                   | _ \<Rightarrow> None)"

subsection \<open>Emitting a check\<close>

text \<open>The two overloads of \<open>LoopPredication::findInsertPt\<close>, for the use \<open>Guard\<close>.\<close>

definition findInsertPt :: "predication \<Rightarrow> val list \<Rightarrow> insert_point" where
  "findInsertPt E Ops =
     (if list_ex (\<lambda>Op. \<not> Loop_isLoopInvariant E Op) Ops then AtGuard
      else AtPreheaderTerminator)"

definition findInsertPtSCEV :: "predication \<Rightarrow> scev list \<Rightarrow> insert_point" where
  "findInsertPtSCEV E Ops =
     (if list_ex (\<lambda>Op. \<not> SE_isLoopInvariant E Op (LP_L E)
                       \<or> \<not> isSafeToExpandAt E Op AtPreheaderTerminator) Ops
      then AtGuard
      else AtPreheaderTerminator)"

text \<open>\<open>LoopPredication::isLoopInvariantValue\<close>.\<close>

definition isLoopInvariantValue :: "predication \<Rightarrow> scev \<Rightarrow> bool" where
  "isLoopInvariantValue E S =
     (if SE_isLoopInvariant E S (LP_L E) then True
      else case S of
             SCEVUnknown T U \<Rightarrow>
               (case Value_asLoadInst E U of
                  Some LI \<Rightarrow>
                    isUnordered LI \<and> Loop_hasLoopInvariantOperands E U
                    \<and> (AA_pointsToConstantMemory E (getPointerOperand LI)
                       \<or> hasInvariantLoadMetadata LI)
                | None \<Rightarrow> False)
           | _ \<Rightarrow> False)"

text \<open>\<open>LoopPredication::expandCheck\<close>.\<close>

definition expandCheck :: "predication \<Rightarrow> predicate \<Rightarrow> scev \<Rightarrow> scev \<Rightarrow> val" where
  "expandCheck E P LHS RHS =
     (let Ty = getType LHS;
          invariant = (SE_isLoopInvariant E LHS (LP_L E) \<and> SE_isLoopInvariant E RHS (LP_L E))
      in if invariant \<and> SE_isLoopEntryGuardedByCond E (LP_L E) P LHS RHS then ConstantTrue
         else if invariant
                 \<and> SE_isLoopEntryGuardedByCond E (LP_L E) (getInversePredicate P) LHS RHS
         then ConstantFalse
         else
           let LHSV = Expanded LHS Ty (findInsertPtSCEV E [LHS]);
               RHSV = Expanded RHS Ty (findInsertPtSCEV E [RHS])
           in CreateICmp P LHSV RHSV (findInsertPt E [LHSV, RHSV]))"

subsection \<open>Widening a range check\<close>

text \<open>\<open>LoopPredication::widenICmpRangeCheckIncrementingLoop\<close>.\<close>

definition widenICmpRangeCheckIncrementingLoop ::
  "predication \<Rightarrow> LoopICmp \<Rightarrow> LoopICmp \<Rightarrow> val option" where
  "widenICmpRangeCheckIncrementingLoop E LatchCheck' RangeCheck =
     (let Ty = getType (IV RangeCheck);
          GuardStart = getStart (IV RangeCheck);
          GuardLimit = Limit RangeCheck;
          LatchStart = getStart (IV LatchCheck');
          LatchLimit = Limit LatchCheck'
      in if \<not> isLoopInvariantValue E GuardStart \<or> \<not> isLoopInvariantValue E GuardLimit
            \<or> \<not> isLoopInvariantValue E LatchStart \<or> \<not> isLoopInvariantValue E LatchLimit
         then None
         else if \<not> isSafeToExpandAt E LatchStart AtGuard
                 \<or> \<not> isSafeToExpandAt E LatchLimit AtGuard
         then None
         else
           let RHS = getAddExpr (getMinusSCEV GuardLimit GuardStart)
                                (getMinusSCEV LatchStart (getOne Ty));
               LimitCheckPred = getFlippedStrictnessPredicate (Pred LatchCheck');
               LimitCheck = expandCheck E LimitCheckPred LatchLimit RHS;
               FirstIterationCheck = expandCheck E (Pred RangeCheck) GuardStart GuardLimit
           in Some (CreateAnd FirstIterationCheck LimitCheck
                      (findInsertPt E [FirstIterationCheck, LimitCheck])))"

text \<open>\<open>LoopPredication::widenICmpRangeCheckDecrementingLoop\<close>.\<close>

definition widenICmpRangeCheckDecrementingLoop ::
  "predication \<Rightarrow> LoopICmp \<Rightarrow> LoopICmp \<Rightarrow> val option" where
  "widenICmpRangeCheckDecrementingLoop E LatchCheck' RangeCheck =
     (let Ty = getType (IV RangeCheck);
          GuardStart = getStart (IV RangeCheck);
          GuardLimit = Limit RangeCheck;
          LatchStart = getStart (IV LatchCheck');
          LatchLimit = Limit LatchCheck'
      in if \<not> isLoopInvariantValue E GuardStart \<or> \<not> isLoopInvariantValue E GuardLimit
            \<or> \<not> isLoopInvariantValue E LatchStart \<or> \<not> isLoopInvariantValue E LatchLimit
         then None
         else if \<not> isSafeToExpandAt E LatchStart AtGuard
                 \<or> \<not> isSafeToExpandAt E LatchLimit AtGuard
         then None
         else
           let PostDecLatchCheckIV = SE_getPostIncExpr E (IV LatchCheck')
           in if IV RangeCheck \<noteq> PostDecLatchCheckIV then None
              else
                let LimitCheckPred = getFlippedStrictnessPredicate (Pred LatchCheck');
                    FirstIterationCheck = expandCheck E ICMP_ULT GuardStart GuardLimit;
                    LimitCheck = expandCheck E LimitCheckPred LatchLimit (getOne Ty)
                in Some (CreateAnd FirstIterationCheck LimitCheck
                           (findInsertPt E [FirstIterationCheck, LimitCheck])))"

text \<open>\<open>isSafeToTruncateWideIVType\<close> and \<open>generateLoopLatchCheck\<close>.\<close>

definition isSafeToTruncateWideIVType :: "predication \<Rightarrow> LoopICmp \<Rightarrow> ty \<Rightarrow> bool" where
  "isSafeToTruncateWideIVType E LatchCheck' RangeCheckType =
     (if \<not> EnableIVTruncation E then False
      else case (Limit LatchCheck', getStart (IV LatchCheck')) of
             (SCEVConstant LT LimitC, SCEVConstant ST StartC) \<Rightarrow>
               if \<not> SE_isMonotonicPredicate E (IV LatchCheck') (Pred LatchCheck') then False
               else
                 let RangeCheckTypeBitSize = DL_getTypeSizeInBits E RangeCheckType
                 in getActiveBits (DL_getTypeSizeInBits E ST) StartC < RangeCheckTypeBitSize
                    \<and> getActiveBits (DL_getTypeSizeInBits E LT) LimitC < RangeCheckTypeBitSize
           | _ \<Rightarrow> False)"

definition generateLoopLatchCheck :: "predication \<Rightarrow> LoopICmp \<Rightarrow> ty \<Rightarrow> LoopICmp option" where
  "generateLoopLatchCheck E LatchCheck' RangeCheckType =
     (let LatchType = getType (IV LatchCheck')
      in if RangeCheckType = LatchType then Some LatchCheck'
         else if DL_getTypeSizeInBits E LatchType < DL_getTypeSizeInBits E RangeCheckType
         then None
         else if \<not> isSafeToTruncateWideIVType E LatchCheck' RangeCheckType then None
         else case SE_getTruncateExpr E (IV LatchCheck') RangeCheckType of
                SCEVAddRecExpr ops ExprL flags \<Rightarrow>
                  Some \<lparr>Pred = Pred LatchCheck',
                        IV = SCEVAddRecExpr ops ExprL flags,
                        Limit = SE_getTruncateExpr E (Limit LatchCheck') RangeCheckType\<rparr>
              | _ \<Rightarrow> None)"

definition isSupportedStep :: "predication \<Rightarrow> scev \<Rightarrow> bool" where
  "isSupportedStep E Step = (isOne Step \<or> (isAllOnesValue Step \<and> EnableCountDownLoop E))"

text \<open>\<open>LoopPredication::widenICmpRangeCheck\<close>, on the predicate and operands of \<open>ICI\<close>.\<close>

definition widenICmpRangeCheck :: "predication \<Rightarrow> predicate \<Rightarrow> val \<Rightarrow> val \<Rightarrow> val option" where
  "widenICmpRangeCheck E P LHS RHS =
     (case parseLoopICmp E P LHS RHS of
        None \<Rightarrow> None
      | Some RangeCheck \<Rightarrow>
          if Pred RangeCheck \<noteq> ICMP_ULT then None
          else
            let RangeCheckIV = IV RangeCheck
            in if \<not> isAffine RangeCheckIV then None
               else
                 let Step = getStepRecurrence RangeCheckIV
                 in if \<not> isSupportedStep E Step then None
                    else
                      let Ty = getType RangeCheckIV
                      in case generateLoopLatchCheck E (LatchCheck E) Ty of
                           None \<Rightarrow> None
                         | Some CurrLatchCheck \<Rightarrow>
                             if Step \<noteq> getStepRecurrence (IV CurrLatchCheck) then None
                             else if isOne Step
                             then widenICmpRangeCheckIncrementingLoop E CurrLatchCheck RangeCheck
                             else widenICmpRangeCheckDecrementingLoop E CurrLatchCheck RangeCheck)"

subsection \<open>Collecting the checks of a guard\<close>

text \<open>
  The loop of \<open>LoopPredication::collectChecks\<close>.  The worklist is a stack, its top
  first; the source runs the body once before it tests the worklist, which holds
  the condition of the guard then.  \<open>widen\<close> is the attempt to widen a
  sub-condition that is an integer comparison.
\<close>

definition widen :: "predication \<Rightarrow> val \<Rightarrow> val option" where
  "widen E Condition =
     (case as_ICmpInst Condition of
        Some (P, LHS, RHS) \<Rightarrow> widenICmpRangeCheck E P LHS RHS
      | None \<Rightarrow> None)"

lemma match_And_size:
  "match_And V = Some (LHS, RHS) \<Longrightarrow> size LHS + size RHS < size V"
  by (cases V) auto

function collectChecks_loop ::
  "predication \<Rightarrow> val list \<Rightarrow> val set \<Rightarrow> val option \<Rightarrow> val list \<Rightarrow> nat
   \<Rightarrow> val list \<times> val option \<times> nat" where
  "collectChecks_loop E [] Visited WideableCond Checks NumWidened =
     (Checks, WideableCond, NumWidened)"
| "collectChecks_loop E (Condition # Worklist) Visited WideableCond Checks NumWidened =
     (if Condition \<in> Visited
      then collectChecks_loop E Worklist Visited WideableCond Checks NumWidened
      else
        case match_And Condition of
          Some (LHS, RHS) \<Rightarrow>
            collectChecks_loop E (RHS # LHS # Worklist) (insert Condition Visited)
              WideableCond Checks NumWidened
        | None \<Rightarrow>
            if is_widenable_condition Condition
            then collectChecks_loop E Worklist (insert Condition Visited)
                   (Some Condition) Checks NumWidened
            else
              case widen E Condition of
                Some NewRangeCheck \<Rightarrow>
                  collectChecks_loop E Worklist (insert Condition Visited)
                    WideableCond (Checks @ [NewRangeCheck]) (NumWidened + 1)
              | None \<Rightarrow>
                  collectChecks_loop E Worklist (insert Condition Visited)
                    WideableCond (Checks @ [Condition]) NumWidened)"
  by pat_completeness auto
termination
  by (relation "measure (\<lambda>(E, Worklist, Visited, WideableCond, Checks, NumWidened).
                   sum_list (map (\<lambda>V. 2 * size V + 1) Worklist))")
    (auto dest: match_And_size)

text \<open>
  \<open>LoopPredication::collectChecks\<close>: the checks are appended to \<open>Checks\<close>, the
  widenable condition last, and the number of widened checks is returned.
\<close>

definition collectChecks :: "predication \<Rightarrow> val list \<Rightarrow> val \<Rightarrow> val list \<times> nat" where
  "collectChecks E Checks Condition =
     (case collectChecks_loop E [Condition] {} None Checks 0 of
        (Checks', WideableCond, NumWidened) \<Rightarrow>
          (case WideableCond of
             Some WC \<Rightarrow> (Checks' @ [WC], NumWidened)
           | None \<Rightarrow> (Checks', NumWidened)))"

text \<open>
  The sub-conditions of a condition, as the specification has them: what is left
  when the condition is split at its top-level conjunctions.
\<close>

fun conjuncts :: "val \<Rightarrow> val list" where
  "conjuncts (And a LHS RHS) = conjuncts LHS @ conjuncts RHS"
| "conjuncts (CreateAnd LHS RHS pt) = conjuncts LHS @ conjuncts RHS"
| "conjuncts V = [V]"

subsection \<open>The value of what the pass emits\<close>

text \<open>
  To state what an emitted check is equivalent to, the loop-invariant expressions
  and the values the pass creates are given their value at the entry of the loop:
  \<open>bits\<close> is the width of a type and \<open>\<rho>\<close> the value of each IR value an
  unknown stands for.  A value of \<open>w\<close> bits is an integer from 0 to \<open>2 ^ w - 1\<close>;
  \<open>to_signed\<close> reads it in two's complement, and \<open>icmp\<close> is the comparison
  instruction.  Expressions that vary in the loop, and values the pass does not
  create, have no value here.
\<close>

definition to_signed :: "nat \<Rightarrow> int \<Rightarrow> int" where
  "to_signed w x = (if x < 2 ^ (w - 1) then x else x - 2 ^ w)"

fun icmp :: "nat \<Rightarrow> predicate \<Rightarrow> int \<Rightarrow> int \<Rightarrow> bool" where
  "icmp w ICMP_EQ x y = (x = y)"
| "icmp w ICMP_NE x y = (x \<noteq> y)"
| "icmp w ICMP_UGT x y = (x > y)"
| "icmp w ICMP_UGE x y = (x \<ge> y)"
| "icmp w ICMP_ULT x y = (x < y)"
| "icmp w ICMP_ULE x y = (x \<le> y)"
| "icmp w ICMP_SGT x y = (to_signed w x > to_signed w y)"
| "icmp w ICMP_SGE x y = (to_signed w x \<ge> to_signed w y)"
| "icmp w ICMP_SLT x y = (to_signed w x < to_signed w y)"
| "icmp w ICMP_SLE x y = (to_signed w x \<le> to_signed w y)"

fun eval_scev :: "(ty \<Rightarrow> nat) \<Rightarrow> (inst \<Rightarrow> int) \<Rightarrow> scev \<Rightarrow> int option" where
  "eval_scev bits \<rho> (SCEVConstant T c) = Some (c mod 2 ^ bits T)"
| "eval_scev bits \<rho> (SCEVUnknown T v) = Some (\<rho> v mod 2 ^ bits T)"
| "eval_scev bits \<rho> (SCEVAddExpr ops) =
     (case those (map (eval_scev bits \<rho>) ops) of
        Some xs \<Rightarrow> Some (sum_list xs mod 2 ^ bits (getType (SCEVAddExpr ops)))
      | None \<Rightarrow> None)"
| "eval_scev bits \<rho> (SCEVMulExpr ops) =
     (case those (map (eval_scev bits \<rho>) ops) of
        Some xs \<Rightarrow> Some (prod_list xs mod 2 ^ bits (getType (SCEVMulExpr ops)))
      | None \<Rightarrow> None)"
| "eval_scev bits \<rho> S = None"

fun eval_val :: "(ty \<Rightarrow> nat) \<Rightarrow> (inst \<Rightarrow> int) \<Rightarrow> val \<Rightarrow> bool option" where
  "eval_val bits \<rho> ConstantTrue = Some True"
| "eval_val bits \<rho> ConstantFalse = Some False"
| "eval_val bits \<rho> (CreateICmp P (Expanded LHS LT lp) (Expanded RHS RT rp) pt) =
     (case (eval_scev bits \<rho> LHS, eval_scev bits \<rho> RHS) of
        (Some x, Some y) \<Rightarrow> Some (icmp (bits LT) P x y)
      | _ \<Rightarrow> None)"
| "eval_val bits \<rho> (CreateAnd LHS RHS pt) =
     (case (eval_val bits \<rho> LHS, eval_val bits \<rho> RHS) of
        (Some x, Some y) \<Rightarrow> Some (x \<and> y)
      | _ \<Rightarrow> None)"
| "eval_val bits \<rho> V = None"

text \<open>
  Scalar evolution is sound at the entry of the loop: a comparison it reports as
  guarding the entry holds of the values there.
\<close>

definition entry_guards_hold :: "(ty \<Rightarrow> nat) \<Rightarrow> (inst \<Rightarrow> int) \<Rightarrow> predication \<Rightarrow> bool" where
  "entry_guards_hold bits \<rho> E =
     (\<forall>P LHS RHS. SE_isLoopEntryGuardedByCond E (LP_L E) P LHS RHS \<longrightarrow>
        (\<exists>x y. eval_scev bits \<rho> LHS = Some x \<and> eval_scev bits \<rho> RHS = Some y
               \<and> icmp (bits (getType LHS)) P x y))"

subsection \<open>Example loop\<close>

text \<open>
  The loop \<open>i = 0; do { guard(i u< N); i++; } while (i s< M)\<close> on 32-bit
  integers.  The value 20 is \<open>i\<close>, the recurrence \<open>{0,+,1}\<close>; 21 is the
  incremented \<open>i\<close>, the recurrence \<open>{1,+,1}\<close>; 10 and 11 are \<open>N\<close> and
  \<open>M\<close>; 22 has the recurrence \<open>{0,+,1,+,1}\<close> and 23 no symbolic form.
  Scalar evolution takes every expression but a recurrence for invariant, holds
  every expansion for safe, and knows of the entry of the loop that \<open>N u>= 0\<close>.
  The condition of the guard is \<open>(i u< N && wc()) && (wc() && %7)\<close>, and
  \<open>ex_widened\<close> is the check the pass emits for \<open>i u< N\<close>.
\<close>

definition i32 :: ty where "i32 = IntegerTy 32"

definition ex_iv :: scev where
  "ex_iv = SCEVAddRecExpr [SCEVConstant i32 0, SCEVConstant i32 1] 0 0"

definition ex_iv_next :: scev where
  "ex_iv_next = SCEVAddRecExpr [SCEVConstant i32 1, SCEVConstant i32 1] 0 0"

definition ex_quadratic :: scev where
  "ex_quadratic =
     SCEVAddRecExpr [SCEVConstant i32 0, SCEVConstant i32 1, SCEVConstant i32 1] 0 0"

definition ex_N :: scev where "ex_N = SCEVUnknown i32 10"
definition ex_M :: scev where "ex_M = SCEVUnknown i32 11"

definition ex_latch :: LoopICmp where
  "ex_latch = \<lparr>Pred = ICMP_SLT, IV = ex_iv_next, Limit = ex_M\<rparr>"

definition ex_range :: LoopICmp where
  "ex_range = \<lparr>Pred = ICMP_ULT, IV = ex_iv, Limit = ex_N\<rparr>"

definition ex_bits :: "ty \<Rightarrow> nat" where
  "ex_bits T = (case T of IntegerTy n \<Rightarrow> n | PointerTy \<Rightarrow> 64)"

definition ex_E :: predication where
  "ex_E =
     \<lparr>LP_L = 0,
      LatchCheck = ex_latch,
      EnableIVTruncation = True,
      EnableCountDownLoop = True,
      SE_getSCEV =
        (\<lambda>V. case V of
               OtherValue a \<Rightarrow>
                 if a = 20 then ex_iv else if a = 21 then ex_iv_next
                 else if a = 22 then ex_quadratic else if a = 23 then SCEVCouldNotCompute
                 else SCEVUnknown i32 a
             | _ \<Rightarrow> SCEVCouldNotCompute),
      SE_isLoopInvariant =
        (\<lambda>S l. case S of SCEVAddRecExpr ops ExprL flags \<Rightarrow> False | _ \<Rightarrow> True),
      SE_isLoopEntryGuardedByCond =
        (\<lambda>l P LHS RHS. P = ICMP_UGE \<and> LHS = ex_N \<and> RHS = SCEVConstant i32 0),
      SE_isMonotonicPredicate = (\<lambda>S P. True),
      SE_getTruncateExpr = (\<lambda>S T. S),
      SE_getPostIncExpr = (\<lambda>S. S),
      isSafeToExpandAt = (\<lambda>S pt. True),
      Loop_isLoopInvariant =
        (\<lambda>V. case V of
               Expanded S T pt \<Rightarrow> pt = AtPreheaderTerminator
             | CreateICmp P LHS RHS pt \<Rightarrow> pt = AtPreheaderTerminator
             | CreateAnd LHS RHS pt \<Rightarrow> pt = AtPreheaderTerminator
             | ConstantTrue \<Rightarrow> True
             | ConstantFalse \<Rightarrow> True
             | _ \<Rightarrow> False),
      Loop_hasLoopInvariantOperands = (\<lambda>I. True),
      Value_asLoadInst = (\<lambda>I. None),
      AA_pointsToConstantMemory = (\<lambda>I. False),
      DL_getTypeSizeInBits = ex_bits\<rparr>"

text \<open>The values of \<open>N\<close> and \<open>M\<close> at the entry of the loop.\<close>

definition ex_rho :: "int \<Rightarrow> int \<Rightarrow> inst \<Rightarrow> int" where
  "ex_rho n m v = (if v = 10 then n else m)"

definition ex_condition :: val where
  "ex_condition =
     And 1
       (And 2 (ICmp 3 ICMP_ULT (OtherValue 20) (OtherValue 10)) (WidenableCondition 4))
       (And 5 (WidenableCondition 6) (OtherValue 7))"

definition ex_widened :: val where
  "ex_widened =
     CreateAnd
       (CreateICmp ICMP_ULT
          (Expanded (SCEVConstant i32 0) i32 AtPreheaderTerminator)
          (Expanded ex_N i32 AtPreheaderTerminator) AtPreheaderTerminator)
       (CreateICmp ICMP_SLE
          (Expanded ex_M i32 AtPreheaderTerminator)
          (Expanded
             (getAddExpr (getMinusSCEV ex_N (SCEVConstant i32 0))
                (getMinusSCEV (SCEVConstant i32 1) (getOne i32)))
             i32 AtPreheaderTerminator)
          AtPreheaderTerminator)
       AtPreheaderTerminator"

text \<open>
  A set of visited values is closed when the operands of each conjunction in it are
  in it or still on the worklist.
\<close>

definition children_closed :: "val set \<Rightarrow> val set \<Rightarrow> bool" where
  "children_closed Vis W =
     (\<forall>V \<in> Vis. \<forall>LHS RHS. match_And V = Some (LHS, RHS) \<longrightarrow>
        LHS \<in> Vis \<union> W \<and> RHS \<in> Vis \<union> W)"

section \<open>Properties of loop fusion\<close>

lemma isCFE_same_entry:
  "getEntryBlock FC0 = getEntryBlock FC1 \<Longrightarrow>
   isControlFlowEquivalent DT PDT FC0 FC1 = isControlFlowEquivalent DT PDT FC1 FC0"
  by (simp add: isControlFlowEquivalent_def)

text \<open>
  C8.  The control-flow-equivalence test is symmetric: swapping the two candidates
  gives the same answer.  Dominance is a partial order on blocks, and the test
  relies on its antisymmetry: when each entry block dominates the other, the two
  are the same block.
\<close>

theorem isControlFlowEquivalent_symmetric:
  assumes antisym: "\<And>A B. DT A B \<Longrightarrow> DT B A \<Longrightarrow> A = B"
  shows "isControlFlowEquivalent DT PDT FC0 FC1 = isControlFlowEquivalent DT PDT FC1 FC0"
proof (cases "DT (getEntryBlock FC0) (getEntryBlock FC1) \<and>
              DT (getEntryBlock FC1) (getEntryBlock FC0)")
  case True
  then have "getEntryBlock FC0 = getEntryBlock FC1"
    using antisym by blast
  then show ?thesis by (rule isCFE_same_entry)
next
  case False
  then show ?thesis
    by (auto simp: isControlFlowEquivalent_def Let_def)
qed

theorem isControlFlowEquivalent_symmetric_witness:
  "isControlFlowEquivalent ex_DT ex_PDT ex_unguarded ex_guarded
   = isControlFlowEquivalent ex_DT ex_PDT ex_guarded ex_unguarded
   \<and> isControlFlowEquivalent ex_DT ex_PDT ex_guarded ex_unguarded"
proof -
  have antisym: "\<And>A B. ex_DT A B \<Longrightarrow> ex_DT B A \<Longrightarrow> A = B"
    by (auto simp: ex_DT_def split: option.splits)
  have "isControlFlowEquivalent ex_DT ex_PDT ex_guarded ex_unguarded"
    by (simp add: isControlFlowEquivalent_def getEntryBlock_def ex_guarded_def
        ex_unguarded_def ex_DT_def ex_PDT_def)
  with isControlFlowEquivalent_symmetric [of ex_DT ex_PDT ex_unguarded ex_guarded, OF antisym]
  show ?thesis by simp
qed

text \<open>
  C9.  The comparator that orders a candidate set is irreflexive: on a candidate and
  itself, and on any two candidates with the same entry block, it returns false,
  because it first asks whether the right entry block dominates the left one and a
  block dominates itself.  The order it defines is strict: it is asymmetric, and
  transitive wherever dominance is.
\<close>

theorem FusionCandidateCompare_irreflexive:
  assumes refl: "\<And>B. DT B B"
  shows "(getEntryBlock LHS = getEntryBlock RHS \<longrightarrow>
            FusionCandidateCompare DT LHS RHS = Inr False)
       \<and> FusionCandidateCompare DT LHS LHS = Inr False
       \<and> (FusionCandidateCompare DT LHS RHS = Inr True \<longrightarrow>
            FusionCandidateCompare DT RHS LHS = Inr False)
       \<and> ((\<forall>A B C. DT A B \<longrightarrow> DT B C \<longrightarrow> DT A C) \<longrightarrow>
            FusionCandidateCompare DT LHS RHS = Inr True \<longrightarrow>
            FusionCandidateCompare DT RHS X = Inr True \<longrightarrow>
            FusionCandidateCompare DT LHS X = Inr True)"
proof (intro conjI impI)
  assume "getEntryBlock LHS = getEntryBlock RHS"
  then show "FusionCandidateCompare DT LHS RHS = Inr False"
    using refl by (simp add: FusionCandidateCompare_def)
next
  show "FusionCandidateCompare DT LHS LHS = Inr False"
    using refl by (simp add: FusionCandidateCompare_def)
next
  assume "FusionCandidateCompare DT LHS RHS = Inr True"
  then show "FusionCandidateCompare DT RHS LHS = Inr False"
    by (simp add: FusionCandidateCompare_def Let_def split: if_splits)
next
  assume trans: "\<forall>A B C. DT A B \<longrightarrow> DT B C \<longrightarrow> DT A C"
    and lr: "FusionCandidateCompare DT LHS RHS = Inr True"
    and rx: "FusionCandidateCompare DT RHS X = Inr True"
  from lr have 1: "\<not> DT (getEntryBlock RHS) (getEntryBlock LHS)"
    and 2: "DT (getEntryBlock LHS) (getEntryBlock RHS)"
    by (simp_all add: FusionCandidateCompare_def Let_def split: if_splits)
  from rx have 3: "\<not> DT (getEntryBlock X) (getEntryBlock RHS)"
    and 4: "DT (getEntryBlock RHS) (getEntryBlock X)"
    by (simp_all add: FusionCandidateCompare_def Let_def split: if_splits)
  from trans 2 4 have 5: "DT (getEntryBlock LHS) (getEntryBlock X)" by blast
  from trans 2 3 have 6: "\<not> DT (getEntryBlock X) (getEntryBlock LHS)" by blast
  from 5 6 show "FusionCandidateCompare DT LHS X = Inr True"
    by (simp add: FusionCandidateCompare_def)
qed

theorem FusionCandidateCompare_irreflexive_witness:
  "FusionCandidateCompare ex_DT ex_guarded ex_guarded = Inr False
   \<and> FusionCandidateCompare ex_DT ex_unguarded ex_guarded = Inr True
   \<and> FusionCandidateCompare ex_DT ex_guarded ex_unguarded = Inr False
   \<and> FusionCandidateCompare ex_DT ex_guarded ex_third = Inr True
   \<and> FusionCandidateCompare ex_DT ex_unguarded ex_third = Inr True"
proof -
  have refl: "\<And>B. ex_DT B B"
    by (simp add: ex_DT_def split: option.splits)
  have trans: "\<forall>A B C. ex_DT A B \<longrightarrow> ex_DT B C \<longrightarrow> ex_DT A C"
    by (auto simp: ex_DT_def split: option.splits)
  have ug: "FusionCandidateCompare ex_DT ex_unguarded ex_guarded = Inr True"
    by (simp add: FusionCandidateCompare_def getEntryBlock_def ex_guarded_def
        ex_unguarded_def ex_DT_def)
  have gt: "FusionCandidateCompare ex_DT ex_guarded ex_third = Inr True"
    by (simp add: FusionCandidateCompare_def getEntryBlock_def ex_guarded_def
        ex_third_def ex_DT_def)
  show ?thesis
    using FusionCandidateCompare_irreflexive [of ex_DT ex_unguarded ex_guarded ex_third, OF refl]
      FusionCandidateCompare_irreflexive [of ex_DT ex_guarded ex_guarded ex_third, OF refl]
      trans ug gt
    by blast
qed

subsection \<open>The checks on a pair and the loops over a set\<close>


lemma identicalTripCounts_fst:
  "fst (identicalTripCounts g FC0 FC1 d) =
     (g (FCLoop FC0) \<noteq> SCEVCouldNotCompute \<and> g (FCLoop FC1) \<noteq> SCEVCouldNotCompute
      \<and> g (FCLoop FC0) = g (FCLoop FC1))"
  by (auto simp: identicalTripCounts_def Let_def)

lemma identicalTripCounts_snd:
  "snd (identicalTripCounts g FC0 FC1 d) =
     (if g (FCLoop FC0) = SCEVCouldNotCompute \<or> g (FCLoop FC1) = SCEVCouldNotCompute
      then incr UncomputableTripCount d else d)"
  by (auto simp: identicalTripCounts_def Let_def)

lemma dependencesAllowFusion_fst:
  "fst (dependencesAllowFusion A FC0 FC1 d) = fst (dependencesAllowFusion A FC0 FC1 d')"
  by (simp add: dependencesAllowFusion_def Let_def)

lemma dependencesAllowFusion_snd:
  "snd (dependencesAllowFusion A FC0 FC1 d) =
     (if fst (dependencesAllowFusion A FC0 FC1 d) then d else incr InvalidDependencies d)"
  by (simp add: dependencesAllowFusion_def Let_def)

lemma remarks_incr [simp]: "remarks (incr s d) = remarks d"
  by (simp add: incr_def)

lemma stats_incr [simp]: "stats (incr s d) s' = (if s' = s then stats d s + 1 else stats d s')"
  by (simp add: incr_def)

lemma remarks_report [simp]:
  "remarks (reportLoopFusion K FC0 FC1 s d) =
     remarks d @ [\<lparr>RemarkKind = K, RemarkName = s, Cand1 = Preheader FC0, Cand2 = Preheader FC1\<rparr>]"
  by (simp add: reportLoopFusion_def Let_def)

lemma stats_report [simp]:
  "stats (reportLoopFusion K FC0 FC1 s d) s' = (if s' = s then stats d s + 1 else stats d s')"
  by (simp add: reportLoopFusion_def Let_def)

lemma first_failure_chain:
  "first_failure A FC0 FC1 =
    (if \<not> fst (identicalTripCounts (SE_getBackedgeTakenCount A) FC0 FC1 no_diag)
     then Some NonEqualTripCount
     else if \<not> isAdjacent FC0 FC1 then Some NonAdjacent
     else if \<not> (case (GuardBranch FC0, GuardBranch FC1) of
            (Some G0, Some G1) \<Rightarrow> haveIdenticalGuards A FC0 G0 FC1 G1
          | _ \<Rightarrow> True) then Some NonIdenticalGuards
     else if \<not> isEmptyPreheader A FC1 then Some NonEmptyPreheader
     else if \<not> (GuardBranch FC0 = None \<or> isEmptyExitBlock A FC0) then Some NonEmptyExitBlock
     else if \<not> (case GuardBranch FC1 of
            Some G1 \<Rightarrow> isEmptyGuardBlock A FC1 G1
          | None \<Rightarrow> True) then Some NonEmptyGuardBlock
     else if \<not> fst (dependencesAllowFusion A FC0 FC1 no_diag) then Some InvalidDependencies
     else if \<not> isBeneficialFusion FC0 FC1 then Some FusionNotBeneficial
     else None)"
  by (simp add: first_failure_def fusion_checks_def)

lemma checkFusion_chain:
  "checkFusion A FC0 FC1 d =
    (let d1 = snd (identicalTripCounts (SE_getBackedgeTakenCount A) FC0 FC1 d);
         d2 = snd (dependencesAllowFusion A FC0 FC1 d1);
         miss = reportLoopFusion OptimizationRemarkMissed FC0 FC1
     in case first_failure A FC0 FC1 of
          None \<Rightarrow> (True, d2)
        | Some s \<Rightarrow> (False, miss s (if s = InvalidDependencies \<or> s = FusionNotBeneficial then d2 else d1)))"
proof -
  have dep: "fst (dependencesAllowFusion A FC0 FC1
      (snd (identicalTripCounts (SE_getBackedgeTakenCount A) FC0 FC1 d)))
      = fst (dependencesAllowFusion A FC0 FC1 no_diag)"
    by (rule dependencesAllowFusion_fst)
  have tc: "fst (identicalTripCounts (SE_getBackedgeTakenCount A) FC0 FC1 d)
      = fst (identicalTripCounts (SE_getBackedgeTakenCount A) FC0 FC1 no_diag)"
    by (simp add: identicalTripCounts_fst)
  show ?thesis
    by (cases "GuardBranch FC0"; cases "GuardBranch FC1")
      (simp_all add: first_failure_chain checkFusion_def Let_def tc dep isBeneficialFusion_def)
qed


lemma first_failure_None:
  assumes "first_failure A FC0 FC1 = None"
  shows "checkFusion A FC0 FC1 d = (True, d)"
proof -
  from assms have tc: "fst (identicalTripCounts (SE_getBackedgeTakenCount A) FC0 FC1 no_diag)"
    and dep: "fst (dependencesAllowFusion A FC0 FC1 no_diag)"
    by (simp_all add: first_failure_chain split: if_splits)
  from tc have d1: "snd (identicalTripCounts (SE_getBackedgeTakenCount A) FC0 FC1 d) = d"
    by (auto simp: identicalTripCounts_fst identicalTripCounts_snd)
  from dep have "snd (dependencesAllowFusion A FC0 FC1 d) = d"
    using dependencesAllowFusion_fst [of A FC0 FC1 d no_diag]
    by (simp add: dependencesAllowFusion_snd)
  with d1 show ?thesis
    using assms by (simp add: checkFusion_chain)
qed

lemma first_failure_Some:
  assumes "first_failure A FC0 FC1 = Some s"
  shows "\<not> fst (checkFusion A FC0 FC1 d)
    \<and> remarks (snd (checkFusion A FC0 FC1 d)) = remarks d @
        [\<lparr>RemarkKind = OptimizationRemarkMissed, RemarkName = s,
          Cand1 = Preheader FC0, Cand2 = Preheader FC1\<rparr>]
    \<and> stats d s < stats (snd (checkFusion A FC0 FC1 d)) s
    \<and> (\<forall>s'. s' \<noteq> s \<longrightarrow> (s = NonEqualTripCount \<and> s' = UncomputableTripCount)
          \<or> stats (snd (checkFusion A FC0 FC1 d)) s' = stats d s')"
proof -
  let ?d1 = "snd (identicalTripCounts (SE_getBackedgeTakenCount A) FC0 FC1 d)"
  let ?d2 = "snd (dependencesAllowFusion A FC0 FC1 ?d1)"
  have r1: "remarks ?d1 = remarks d"
    by (simp add: identicalTripCounts_snd)
  have r2: "remarks ?d2 = remarks d"
    by (simp add: dependencesAllowFusion_snd identicalTripCounts_snd)
  have s1: "stats ?d1 s' = stats d s'" if "s' \<noteq> UncomputableTripCount" for s'
    using that by (simp add: identicalTripCounts_snd)
  have s1': "stats ?d1 UncomputableTripCount = stats d UncomputableTripCount"
    if "s \<noteq> NonEqualTripCount"
    using that assms
    by (auto simp: identicalTripCounts_snd identicalTripCounts_fst first_failure_chain
        split: if_splits)
  have s1all: "stats ?d1 s' = stats d s'" if "s \<noteq> NonEqualTripCount" for s'
    using s1 [of s'] s1' [OF that] by (cases "s' = UncomputableTripCount") simp_all
  have s1le: "stats d s' \<le> stats ?d1 s'" for s'
    by (simp add: identicalTripCounts_snd)
  have s2: "stats ?d2 s' = stats ?d1 s'" if "s' \<noteq> InvalidDependencies" for s'
    using that by (simp add: dependencesAllowFusion_snd)
  have s2le: "stats ?d1 s' \<le> stats ?d2 s'" for s'
    by (simp add: dependencesAllowFusion_snd)
  have s2': "stats ?d2 InvalidDependencies = stats ?d1 InvalidDependencies"
    if "s = FusionNotBeneficial"
    using that assms dependencesAllowFusion_fst [of A FC0 FC1 ?d1 no_diag]
    by (auto simp: dependencesAllowFusion_snd first_failure_chain split: if_splits)
  show ?thesis
  proof (cases "s = InvalidDependencies \<or> s = FusionNotBeneficial")
    case True
    then have cf: "checkFusion A FC0 FC1 d =
        (False, reportLoopFusion OptimizationRemarkMissed FC0 FC1 s ?d2)"
      using assms by (simp add: checkFusion_chain Let_def)
    from True have ne: "s \<noteq> NonEqualTripCount" by auto
    have le: "stats d s \<le> stats ?d2 s"
      using s1le [of s] s2le [of s] by simp
    have others: "stats ?d2 s' = stats d s'" if "s' \<noteq> s" for s'
    proof (cases "s' = InvalidDependencies")
      case False
      then show ?thesis using s2 [of s'] s1all [OF ne, of s'] by simp
    next
      case s': True
      with that True have "s = FusionNotBeneficial" by simp
      then show ?thesis using s2' s1all [OF ne, of s'] s' by simp
    qed
    show ?thesis
      unfolding cf using r2 le others by (simp add: le_imp_less_Suc)
  next
    case False
    then have cf: "checkFusion A FC0 FC1 d =
        (False, reportLoopFusion OptimizationRemarkMissed FC0 FC1 s ?d1)"
      using assms by (simp add: checkFusion_chain Let_def)
    have others: "(s = NonEqualTripCount \<and> s' = UncomputableTripCount)
        \<or> stats ?d1 s' = stats d s'" for s'
      using s1 [of s'] s1all [of s'] by blast
    show ?thesis
      unfolding cf using r1 s1le [of s] others by (auto simp: le_imp_less_Suc)
  qed
qed

lemma fuseInner_all_rejected:
  assumes "\<forall>k. j \<le> k \<and> k < length CS \<longrightarrow> first_failure (IR S) (CS ! i) (CS ! k) \<noteq> None"
    and "i < j"
  shows "\<exists>S'. fuseInner P CS i j S = Inr (CS, i, S')
     \<and> IR S' = IR S \<and> Fused S' = Fused S \<and> RemovedLoops S' = RemovedLoops S
     \<and> remarks (Diag S') = remarks (Diag S) @
          map (missed_remark (IR S) CS) (map (Pair i) [j..<length CS])"
  using assms
proof (induction "length CS - j" arbitrary: j S)
  case 0
  then have "\<not> j < length CS" by simp
  then show ?case by (simp add: fuseInner.simps [of P CS i j])
next
  case (Suc n)
  then have j: "j < length CS" by simp
  with Suc.prems obtain s where s: "first_failure (IR S) (CS ! i) (CS ! j) = Some s"
    by auto
  let ?c = "checkFusion (IR S) (CS ! i) (CS ! j) (Diag S)"
  let ?S1 = "S\<lparr>Diag := snd ?c\<rparr>"
  from first_failure_Some [OF s, of "Diag S"]
  have rej: "\<not> fst ?c" and rem: "remarks (snd ?c) = remarks (Diag S) @ [missed_remark (IR S) CS (i, j)]"
    by (simp_all add: missed_remark_def s)
  have step: "fuseInner P CS i j S = fuseInner P CS i (j + 1) ?S1"
    using j Suc.prems(2) rej by (simp add: fuseInner.simps [of P CS i j] Let_def)
  have "n = length CS - (j + 1)" using Suc.hyps(2) by simp
  moreover have "\<forall>k. j + 1 \<le> k \<and> k < length CS \<longrightarrow>
      first_failure (IR ?S1) (CS ! i) (CS ! k) \<noteq> None"
    using Suc.prems(1) by simp
  moreover have "i < j + 1" using Suc.prems(2) by simp
  ultimately obtain S' where
    S': "fuseInner P CS i (j + 1) ?S1 = Inr (CS, i, S')"
      "IR S' = IR ?S1" "Fused S' = Fused ?S1" "RemovedLoops S' = RemovedLoops ?S1"
      "remarks (Diag S') = remarks (Diag ?S1) @
          map (missed_remark (IR ?S1) CS) (map (Pair i) [j + 1..<length CS])"
    using Suc.hyps(1) [of "j + 1" ?S1] by blast
  have "[j..<length CS] = j # [j + 1..<length CS]"
    using j by (simp add: upt_conv_Cons)
  with S' rem step show ?case by simp
qed

lemma pairs_from_step:
  "i < n \<Longrightarrow> pairs_from i n = map (Pair i) [Suc i..<n] @ pairs_from (Suc i) n"
  by (simp add: pairs_from_def upt_conv_Cons)

lemma pairs_from_end: "n \<le> i \<Longrightarrow> pairs_from i n = []"
  by (simp add: pairs_from_def)

declare fuseOuter.simps [simp del]

lemma fuseOuter_all_rejected:
  assumes "\<forall>k l. i \<le> k \<and> k < l \<and> l < length CS \<longrightarrow>
      first_failure (IR S) (CS ! k) (CS ! l) \<noteq> None"
  shows "\<exists>S'. fuseOuter P CS i S = Inr (CS, S')
     \<and> IR S' = IR S \<and> Fused S' = Fused S \<and> RemovedLoops S' = RemovedLoops S
     \<and> remarks (Diag S') = remarks (Diag S) @
          map (missed_remark (IR S) CS) (pairs_from i (length CS))"
  using assms
proof (induction "length CS - i" arbitrary: i S)
  case 0
  then have "\<not> i < length CS" by simp
  then show ?case by (simp add: fuseOuter.simps [of P CS i] pairs_from_end)
next
  case (Suc n)
  then have i: "i < length CS" by simp
  have "\<forall>k. Suc i \<le> k \<and> k < length CS \<longrightarrow> first_failure (IR S) (CS ! i) (CS ! k) \<noteq> None"
    using Suc.prems by auto
  from fuseInner_all_rejected [OF this, of P] obtain S1 where
    S1: "fuseInner P CS i (Suc i) S = Inr (CS, i, S1)"
      "IR S1 = IR S" "Fused S1 = Fused S" "RemovedLoops S1 = RemovedLoops S"
      "remarks (Diag S1) = remarks (Diag S) @
          map (missed_remark (IR S) CS) (map (Pair i) [Suc i..<length CS])"
    by auto
  have step: "fuseOuter P CS i S = fuseOuter P CS (Suc i) S1"
    using i S1(1) by (simp add: fuseOuter.simps [of P CS i])
  have "n = length CS - Suc i" using Suc.hyps(2) by simp
  moreover have "\<forall>k l. Suc i \<le> k \<and> k < l \<and> l < length CS \<longrightarrow>
      first_failure (IR S1) (CS ! k) (CS ! l) \<noteq> None"
    using Suc.prems S1(2) by simp
  ultimately obtain S' where
    S': "fuseOuter P CS (Suc i) S1 = Inr (CS, S')"
      "IR S' = IR S1" "Fused S' = Fused S1" "RemovedLoops S' = RemovedLoops S1"
      "remarks (Diag S') = remarks (Diag S1) @
          map (missed_remark (IR S1) CS) (pairs_from (Suc i) (length CS))"
    using Suc.hyps(1) [of "Suc i" S1] by blast
  with S1 step pairs_from_step [OF i] show ?case by simp
qed


lemma pairs_from_small: "length CS < 2 \<Longrightarrow> pairs_from 0 (length CS) = []"
  by (cases CS) (auto simp: pairs_from_def)

lemma fuseInner_rejected_step:
  assumes "i < j" and "j < length CS"
    and "first_failure (IR S) (CS ! i) (CS ! j) = Some s"
  shows "fuseInner P CS i j S =
     fuseInner P CS i (j + 1) (S\<lparr>Diag := snd (checkFusion (IR S) (CS ! i) (CS ! j) (Diag S))\<rparr>)"
proof -
  from first_failure_Some [OF assms(3), of "Diag S"]
  have "\<not> fst (checkFusion (IR S) (CS ! i) (CS ! j) (Diag S))" by simp
  with assms(1,2) show ?thesis
    by (simp add: fuseInner.simps [of P CS i j] Let_def)
qed

lemma fuseInner_rejected_run:
  assumes "i < j" and "j \<le> k" and "k \<le> length CS"
    and "\<forall>l. j \<le> l \<and> l < k \<longrightarrow> first_failure (IR S) (CS ! i) (CS ! l) \<noteq> None"
  shows "\<exists>S'. fuseInner P CS i j S = fuseInner P CS i k S'
     \<and> IR S' = IR S \<and> Fused S' = Fused S \<and> RemovedLoops S' = RemovedLoops S
     \<and> remarks (Diag S') = remarks (Diag S) @
          map (missed_remark (IR S) CS) (map (Pair i) [j..<k])"
  using assms
proof (induction "k - j" arbitrary: j S)
  case 0
  then have "j = k" by simp
  then show ?case by auto
next
  case (Suc n)
  then have j: "j < k" "j < length CS" by simp_all
  with Suc.prems obtain s where s: "first_failure (IR S) (CS ! i) (CS ! j) = Some s"
    by auto
  let ?c = "checkFusion (IR S) (CS ! i) (CS ! j) (Diag S)"
  let ?S1 = "S\<lparr>Diag := snd ?c\<rparr>"
  from first_failure_Some [OF s, of "Diag S"]
  have rem: "remarks (snd ?c) = remarks (Diag S) @ [missed_remark (IR S) CS (i, j)]"
    by (simp add: missed_remark_def s)
  have step: "fuseInner P CS i j S = fuseInner P CS i (j + 1) ?S1"
    using Suc.prems(1) j(2) s by (rule fuseInner_rejected_step)
  have "n = k - (j + 1)" using Suc.hyps(2) by simp
  moreover have "i < j + 1" using Suc.prems(1) by simp
  moreover have "j + 1 \<le> k" using j by simp
  moreover have "\<forall>l. j + 1 \<le> l \<and> l < k \<longrightarrow>
      first_failure (IR ?S1) (CS ! i) (CS ! l) \<noteq> None"
    using Suc.prems(4) by simp
  ultimately obtain S' where
    S': "fuseInner P CS i (j + 1) ?S1 = fuseInner P CS i k S'"
      "IR S' = IR ?S1" "Fused S' = Fused ?S1" "RemovedLoops S' = RemovedLoops ?S1"
      "remarks (Diag S') = remarks (Diag ?S1) @
          map (missed_remark (IR ?S1) CS) (map (Pair i) [j + 1..<k])"
    using Suc.hyps(1) [of "j + 1" ?S1] Suc.prems(3) by blast
  have "[j..<k] = j # [j + 1..<k]"
    using j by (simp add: upt_conv_Cons)
  with S' rem step show ?case by (intro exI [of _ S']) simp
qed

lemma pairs_between_step:
  "i < m \<Longrightarrow> pairs_between i m n = map (Pair i) [Suc i..<n] @ pairs_between (Suc i) m n"
  by (simp add: pairs_between_def upt_conv_Cons)

lemma pairs_between_end: "m \<le> i \<Longrightarrow> pairs_between i m n = []"
  by (simp add: pairs_between_def)

lemma fuseOuter_rejected_rows:
  assumes "i \<le> m" and "m \<le> length CS"
    and "\<forall>k l. i \<le> k \<and> k < m \<and> k < l \<and> l < length CS \<longrightarrow>
      first_failure (IR S) (CS ! k) (CS ! l) \<noteq> None"
  shows "\<exists>S'. fuseOuter P CS i S = fuseOuter P CS m S'
     \<and> IR S' = IR S \<and> Fused S' = Fused S \<and> RemovedLoops S' = RemovedLoops S
     \<and> remarks (Diag S') = remarks (Diag S) @
          map (missed_remark (IR S) CS) (pairs_between i m (length CS))"
  using assms
proof (induction "m - i" arbitrary: i S)
  case 0
  then have "i = m" by simp
  then show ?case by (auto simp: pairs_between_end)
next
  case (Suc n)
  then have i: "i < m" "i < length CS" by simp_all
  have "\<forall>k. Suc i \<le> k \<and> k < length CS \<longrightarrow> first_failure (IR S) (CS ! i) (CS ! k) \<noteq> None"
    using Suc.prems i by auto
  from fuseInner_all_rejected [OF this, of P] obtain S1 where
    S1: "fuseInner P CS i (Suc i) S = Inr (CS, i, S1)"
      "IR S1 = IR S" "Fused S1 = Fused S" "RemovedLoops S1 = RemovedLoops S"
      "remarks (Diag S1) = remarks (Diag S) @
          map (missed_remark (IR S) CS) (map (Pair i) [Suc i..<length CS])"
    by auto
  have step: "fuseOuter P CS i S = fuseOuter P CS (Suc i) S1"
    using i S1(1) by (simp add: fuseOuter.simps [of P CS i])
  have "n = m - Suc i" using Suc.hyps(2) by simp
  moreover have "Suc i \<le> m" using i by simp
  moreover have "\<forall>k l. Suc i \<le> k \<and> k < m \<and> k < l \<and> l < length CS \<longrightarrow>
      first_failure (IR S1) (CS ! k) (CS ! l) \<noteq> None"
    using Suc.prems(3) S1(2) by simp
  ultimately obtain S' where
    S': "fuseOuter P CS (Suc i) S1 = fuseOuter P CS m S'"
      "IR S' = IR S1" "Fused S' = Fused S1" "RemovedLoops S' = RemovedLoops S1"
      "remarks (Diag S') = remarks (Diag S1) @
          map (missed_remark (IR S1) CS) (pairs_between (Suc i) m (length CS))"
    using Suc.hyps(1) [of "Suc i" S1] Suc.prems(2) by blast
  with S1 step pairs_between_step [OF i(1)] show ?case by (intro exI [of _ S']) simp
qed


text \<open>
  C7.  Within a candidate set every pair is checked in the fixed order trip counts,
  adjacency, guard identity, empty preheader of the second loop, empty exit block of
  the first, empty guard block of the second, dependences, profitability.  When no
  check fails the pair goes on to fusion with the diagnostics unchanged.  When
  \<open>s\<close> names the first check that fails, the pair is rejected, the counter
  \<open>s\<close> grows, one missed-optimization remark named \<open>s\<close> is emitted for the
  pair, and no other counter changes (but \<open>UncomputableTripCount\<close>, which the
  trip-count check itself counts): the later checks are not run.  Rejection does not
  stop the pass, in any set and at any point of the two loops: after a rejected pair
  \<open>(i, j)\<close> the inner loop goes on with the pair \<open>(i, j + 1)\<close>, the set
  and all of the state but the diagnostics unchanged; a run of rejected pairs of a
  row leaves one missed remark each, in order, and hands on to the pair after the
  run; and when all pairs of the first \<open>m\<close> rows are rejected, the outer loop
  reaches row \<open>m\<close> with exactly their remarks.  On a set each of whose pairs
  fails some check, the loops return with the set unchanged, nothing fused, and
  exactly one missed remark for each pair, in the order of the two loops.
\<close>

theorem fuseCandidates_checks_in_order:
  "(first_failure A FC0 FC1 = None \<longrightarrow> checkFusion A FC0 FC1 d = (True, d))
   \<and> (\<forall>s. first_failure A FC0 FC1 = Some s \<longrightarrow>
         \<not> fst (checkFusion A FC0 FC1 d)
         \<and> remarks (snd (checkFusion A FC0 FC1 d)) = remarks d @
             [\<lparr>RemarkKind = OptimizationRemarkMissed, RemarkName = s,
               Cand1 = Preheader FC0, Cand2 = Preheader FC1\<rparr>]
         \<and> stats d s < stats (snd (checkFusion A FC0 FC1 d)) s
         \<and> (\<forall>s'. s' \<noteq> s \<longrightarrow> (s = NonEqualTripCount \<and> s' = UncomputableTripCount)
               \<or> stats (snd (checkFusion A FC0 FC1 d)) s' = stats d s'))
   \<and> (\<forall>s. i < j \<and> j < length CS \<and> first_failure (IR S) (CS ! i) (CS ! j) = Some s \<longrightarrow>
         fuseInner P CS i j S =
           fuseInner P CS i (j + 1)
             (S\<lparr>Diag := snd (checkFusion (IR S) (CS ! i) (CS ! j) (Diag S))\<rparr>))
   \<and> (i < j \<and> j \<le> n \<and> n \<le> length CS
        \<and> (\<forall>l. j \<le> l \<and> l < n \<longrightarrow> first_failure (IR S) (CS ! i) (CS ! l) \<noteq> None) \<longrightarrow>
        (\<exists>S'. fuseInner P CS i j S = fuseInner P CS i n S'
           \<and> IR S' = IR S \<and> Fused S' = Fused S \<and> RemovedLoops S' = RemovedLoops S
           \<and> remarks (Diag S') = remarks (Diag S) @
                map (missed_remark (IR S) CS) (map (Pair i) [j..<n])))
   \<and> (2 \<le> length CS \<and> m \<le> length CS
        \<and> (\<forall>k l. k < m \<and> k < l \<and> l < length CS \<longrightarrow>
              first_failure (IR S) (CS ! k) (CS ! l) \<noteq> None) \<longrightarrow>
        (\<exists>S'. fuseCandidateSet P CS S = fuseOuter P CS m S'
           \<and> IR S' = IR S \<and> Fused S' = Fused S \<and> RemovedLoops S' = RemovedLoops S
           \<and> remarks (Diag S') = remarks (Diag S) @
                map (missed_remark (IR S) CS) (pairs_between 0 m (length CS))))
   \<and> ((\<forall>k l. k < l \<and> l < length CS \<longrightarrow>
           first_failure (IR S) (CS ! k) (CS ! l) \<noteq> None) \<longrightarrow>
        (\<exists>S'. fuseCandidateSet P CS S = Inr (CS, S')
           \<and> IR S' = IR S \<and> Fused S' = Fused S \<and> RemovedLoops S' = RemovedLoops S
           \<and> remarks (Diag S') = remarks (Diag S) @
                map (missed_remark (IR S) CS) (pairs_from 0 (length CS))))"
proof (intro conjI allI impI)
  assume "first_failure A FC0 FC1 = None"
  then show "checkFusion A FC0 FC1 d = (True, d)"
    by (rule first_failure_None)
next
  fix s assume s: "first_failure A FC0 FC1 = Some s"
  note r = first_failure_Some [OF s, of d]
  from r show "\<not> fst (checkFusion A FC0 FC1 d)" by blast
  from r show "remarks (snd (checkFusion A FC0 FC1 d)) = remarks d @
             [\<lparr>RemarkKind = OptimizationRemarkMissed, RemarkName = s,
               Cand1 = Preheader FC0, Cand2 = Preheader FC1\<rparr>]" by blast
  from r show "stats d s < stats (snd (checkFusion A FC0 FC1 d)) s" by blast
  fix s' assume "s' \<noteq> s"
  with r show "(s = NonEqualTripCount \<and> s' = UncomputableTripCount)
               \<or> stats (snd (checkFusion A FC0 FC1 d)) s' = stats d s'" by blast
next
  fix s
  assume "i < j \<and> j < length CS \<and> first_failure (IR S) (CS ! i) (CS ! j) = Some s"
  then show "fuseInner P CS i j S =
           fuseInner P CS i (j + 1)
             (S\<lparr>Diag := snd (checkFusion (IR S) (CS ! i) (CS ! j) (Diag S))\<rparr>)"
    using fuseInner_rejected_step [of i j CS S s P] by blast
next
  assume "i < j \<and> j \<le> n \<and> n \<le> length CS
        \<and> (\<forall>l. j \<le> l \<and> l < n \<longrightarrow> first_failure (IR S) (CS ! i) (CS ! l) \<noteq> None)"
  then show "\<exists>S'. fuseInner P CS i j S = fuseInner P CS i n S'
           \<and> IR S' = IR S \<and> Fused S' = Fused S \<and> RemovedLoops S' = RemovedLoops S
           \<and> remarks (Diag S') = remarks (Diag S) @
                map (missed_remark (IR S) CS) (map (Pair i) [j..<n])"
    using fuseInner_rejected_run [of i j n CS S P] by blast
next
  assume a: "2 \<le> length CS \<and> m \<le> length CS
        \<and> (\<forall>k l. k < m \<and> k < l \<and> l < length CS \<longrightarrow>
              first_failure (IR S) (CS ! k) (CS ! l) \<noteq> None)"
  then have "\<forall>k l. 0 \<le> k \<and> k < m \<and> k < l \<and> l < length CS \<longrightarrow>
      first_failure (IR S) (CS ! k) (CS ! l) \<noteq> None" by simp
  from fuseOuter_rejected_rows [OF _ _ this, of P] a
  show "\<exists>S'. fuseCandidateSet P CS S = fuseOuter P CS m S'
           \<and> IR S' = IR S \<and> Fused S' = Fused S \<and> RemovedLoops S' = RemovedLoops S
           \<and> remarks (Diag S') = remarks (Diag S) @
                map (missed_remark (IR S) CS) (pairs_between 0 m (length CS))"
    by (simp add: fuseCandidateSet_def)
next
  assume all: "\<forall>k l. k < l \<and> l < length CS \<longrightarrow>
           first_failure (IR S) (CS ! k) (CS ! l) \<noteq> None"
  show "\<exists>S'. fuseCandidateSet P CS S = Inr (CS, S')
           \<and> IR S' = IR S \<and> Fused S' = Fused S \<and> RemovedLoops S' = RemovedLoops S
           \<and> remarks (Diag S') = remarks (Diag S) @
                map (missed_remark (IR S) CS) (pairs_from 0 (length CS))"
  proof (cases "length CS < 2")
    case True
    then show ?thesis
      by (simp add: fuseCandidateSet_def pairs_from_small)
  next
    case False
    from all have "\<forall>k l. 0 \<le> k \<and> k < l \<and> l < length CS \<longrightarrow>
        first_failure (IR S) (CS ! k) (CS ! l) \<noteq> None" by simp
    from fuseOuter_all_rejected [OF this, of P] False show ?thesis
      by (simp add: fuseCandidateSet_def)
  qed
qed

lemma ex_first_failures:
  "first_failure ex_A ex_unguarded ex_guarded = Some NonEmptyPreheader"
  "first_failure ex_A ex_unguarded ex_third = Some NonEqualTripCount"
  "first_failure ex_A ex_guarded ex_third = Some NonEqualTripCount"
  by (simp_all add: first_failure_chain identicalTripCounts_fst ex_A_def ex_unguarded_def
      ex_guarded_def ex_third_def isAdjacent_def getEntryBlock_def isEmptyPreheader_def)

lemma ex_row_failures:
  "first_failure ex_A ex_unguarded ex_second = Some NonAdjacent"
  "first_failure ex_A ex_unguarded ex_fourth = Some NonAdjacent"
  by (simp_all add: first_failure_chain identicalTripCounts_fst ex_A_def ex_unguarded_def
      ex_second_def ex_fourth_def isAdjacent_def getEntryBlock_def)

lemma ex_row_dependences:
  "fst (dependencesAllowFusion ex_A ex_second ex_fourth d)"
proof -
  have l: "FCLoop ex_second = 1" "FCLoop ex_fourth = 3"
    "MemWrites ex_second = [31]" "MemWrites ex_fourth = []"
    "MemReads ex_second = []" "MemReads ex_fourth = [32]"
    by (simp_all add: ex_second_def ex_fourth_def)
  have ops: "getLoadStorePointerOperand ex_A 31 = Some 51"
    "getLoadStorePointerOperand ex_A 32 = Some 52"
    "SE_getSCEVAtScope ex_A 51 1 = ex_ptr 1" "SE_getSCEVAtScope ex_A 52 3 = ex_ptr 3"
    "FusionDependenceAnalysis ex_A = FUSION_DEPENDENCE_ANALYSIS_ALL"
    by (simp_all add: ex_A_def)
  have K: "SE_isKnownPredicate ex_A ICMP_SGE (ex_ptr 3) (ex_ptr 3)"
    by (simp add: ex_A_def)
  have v: "visit ex_A True 1 3 (ex_ptr 1) = (ex_ptr 3, True)"
    by (simp add: ex_ptr_def)
  have c: "\<not> SCEVExprContains (HasNonLinearDominanceRelation ex_A (Loop_getHeader ex_A 1))
      (ex_ptr 3)"
    by (simp add: ex_ptr_def ex_A_def ex_DT_def)
  have acc: "accessDiffIsPositive ex_A 1 3 31 32 False"
    using c
    by (simp add: accessDiffIsPositive_def ops v K Let_def del: One_nat_def)
  have use: "\<not> list_ex (\<lambda>BB.
                  list_ex (\<lambda>I.
                    list_ex (\<lambda>Op. Value_isInstruction ex_A Op
                               \<and> Loop_containsBlock ex_A 1 (Inst_getParent ex_A Op))
                      (Inst_operands ex_A I))
                    (BB_instructions ex_A BB))
                (Loop_blocks ex_A 3)"
    by (simp add: ex_A_def)
  show ?thesis
    using acc use
    by (simp add: l ops dependencesAllowFusion_def dependencesAllowFusionInst_def
        del: One_nat_def)
qed

lemma ex_row_passes: "first_failure ex_A ex_second ex_fourth = None"
  using ex_row_dependences [of no_diag]
  by (simp add: first_failure_chain identicalTripCounts_fst ex_A_def ex_second_def
      ex_fourth_def isAdjacent_def getEntryBlock_def isEmptyPreheader_def
      isBeneficialFusion_def)


lemma fuseInner_end: "length CS \<le> j \<Longrightarrow> fuseInner P CS i j S = Inr (CS, i, S)"
  by (simp add: fuseInner.simps [of P CS i j])

lemma fuseOuter_end: "length CS \<le> i \<Longrightarrow> fuseOuter P CS i S = Inr (CS, S)"
  by (simp add: fuseOuter.simps [of P CS i])

lemma ex_row_insert:
  "CandidateSet_insert (FusionCandidateCompare ex_DT) ex_second [ex_unguarded]
     = Inr ([ex_unguarded, ex_second], 1, True)"
  by (simp add: FusionCandidateCompare_def getEntryBlock_def ex_second_def ex_unguarded_def
      ex_DT_def)

text \<open>
  The three example loops of \<open>ex_set\<close>: the first pair fails on the second
  loop's preheader and the other two on the trip count, and all three pairs are
  visited.  In \<open>ex_row\<close> the first loop is adjacent to neither of the others:
  both its pairs are rejected, and the pass goes on to the pair of the second and
  third loop, which it fuses.
\<close>

theorem fuseCandidates_checks_in_order_witness:
  "(\<exists>S'. fuseCandidateSet ex_fusion ex_set ex_fuser = Inr (ex_set, S')
     \<and> remarks (Diag S') =
         [\<lparr>RemarkKind = OptimizationRemarkMissed, RemarkName = NonEmptyPreheader,
           Cand1 = Some 1, Cand2 = Some 5\<rparr>,
          \<lparr>RemarkKind = OptimizationRemarkMissed, RemarkName = NonEqualTripCount,
           Cand1 = Some 1, Cand2 = Some 8\<rparr>,
          \<lparr>RemarkKind = OptimizationRemarkMissed, RemarkName = NonEqualTripCount,
           Cand1 = Some 5, Cand2 = Some 8\<rparr>]
     \<and> \<not> Fused S')
   \<and> (\<exists>S'. fuseCandidateSet ex_fusion ex_row ex_fuser = Inr ([ex_unguarded, ex_second], S')
     \<and> remarks (Diag S') =
         [\<lparr>RemarkKind = OptimizationRemarkMissed, RemarkName = NonAdjacent,
           Cand1 = Some 1, Cand2 = Some 5\<rparr>,
          \<lparr>RemarkKind = OptimizationRemarkMissed, RemarkName = NonAdjacent,
           Cand1 = Some 1, Cand2 = Some 8\<rparr>,
          \<lparr>RemarkKind = OptimizationRemark, RemarkName = FuseCounter,
           Cand1 = Some 5, Cand2 = Some 8\<rparr>]
     \<and> Fused S' \<and> RemovedLoops S' = {3})"
proof (rule conjI)
  have len: "length ex_set = 3" by (simp add: ex_set_def)
  have nth: "ex_set ! 0 = ex_unguarded" "ex_set ! 1 = ex_guarded" "ex_set ! 2 = ex_third"
    "ex_set ! Suc 0 = ex_guarded" "ex_set ! Suc (Suc 0) = ex_third"
    by (simp_all add: ex_set_def)
  have ir: "IR ex_fuser = ex_A" by (simp add: ex_fuser_def)
  have all: "\<forall>k l. k < l \<and> l < length ex_set \<longrightarrow>
      first_failure (IR ex_fuser) (ex_set ! k) (ex_set ! l) \<noteq> None"
  proof (intro allI impI)
    fix k l assume "k < l \<and> l < length ex_set"
    then have "(k = 0 \<and> l = 1) \<or> (k = 0 \<and> l = 2) \<or> (k = 1 \<and> l = 2)"
      unfolding len by arith
    then show "first_failure (IR ex_fuser) (ex_set ! k) (ex_set ! l) \<noteq> None"
      by (auto simp: ir nth ex_first_failures)
  qed
  have pairs: "pairs_from 0 (length ex_set) = [(0, 1), (0, 2), (1, 2)]"
    unfolding len by (simp add: pairs_from_def upt_conv_Cons numeral_3_eq_3)
  have pre: "Preheader ex_unguarded = Some 1" "Preheader ex_guarded = Some 5"
    "Preheader ex_third = Some 8"
    by (simp_all add: ex_unguarded_def ex_guarded_def ex_third_def)
  from fuseCandidates_checks_in_order
    [where CS = ex_set and S = ex_fuser and P = ex_fusion, THEN conjunct2, THEN conjunct2,
      THEN conjunct2, THEN conjunct2, THEN conjunct2, THEN mp, OF all]
  obtain S' where S': "fuseCandidateSet ex_fusion ex_set ex_fuser = Inr (ex_set, S')"
    "Fused S' = Fused ex_fuser"
    "remarks (Diag S') = remarks (Diag ex_fuser) @
        map (missed_remark (IR ex_fuser) ex_set) (pairs_from 0 (length ex_set))"
    by blast
  have "remarks (Diag ex_fuser) = []" "\<not> Fused ex_fuser"
    by (simp_all add: ex_fuser_def no_diag_def)
  with S' show "\<exists>S'. fuseCandidateSet ex_fusion ex_set ex_fuser = Inr (ex_set, S')
     \<and> remarks (Diag S') =
         [\<lparr>RemarkKind = OptimizationRemarkMissed, RemarkName = NonEmptyPreheader,
           Cand1 = Some 1, Cand2 = Some 5\<rparr>,
          \<lparr>RemarkKind = OptimizationRemarkMissed, RemarkName = NonEqualTripCount,
           Cand1 = Some 1, Cand2 = Some 8\<rparr>,
          \<lparr>RemarkKind = OptimizationRemarkMissed, RemarkName = NonEqualTripCount,
           Cand1 = Some 5, Cand2 = Some 8\<rparr>]
     \<and> \<not> Fused S'"
    by (simp add: pairs missed_remark_def ir nth ex_first_failures pre)
next
  let ?P = ex_fusion
  have len: "length ex_row = 3" by (simp add: ex_row_def)
  have nth: "ex_row ! 0 = ex_unguarded" "ex_row ! 1 = ex_second" "ex_row ! 2 = ex_fourth"
    "ex_row ! Suc 0 = ex_second"
    by (simp_all add: ex_row_def)
  have ir: "IR ex_fuser = ex_A" by (simp add: ex_fuser_def)
  have row: "\<forall>k l. k < 1 \<and> k < l \<and> l < length ex_row \<longrightarrow>
      first_failure (IR ex_fuser) (ex_row ! k) (ex_row ! l) \<noteq> None"
  proof (intro allI impI)
    fix k l assume "k < 1 \<and> k < l \<and> l < length ex_row"
    then have "(k = 0 \<and> l = 1) \<or> (k = 0 \<and> l = 2)"
      unfolding len by arith
    then show "first_failure (IR ex_fuser) (ex_row ! k) (ex_row ! l) \<noteq> None"
      by (auto simp: ir nth ex_row_failures)
  qed
  have pairs: "pairs_between 0 1 (length ex_row) = [(0, 1), (0, 2)]"
    unfolding len by (simp add: pairs_between_def upt_conv_Cons numeral_3_eq_3)
  have pre: "Preheader ex_unguarded = Some 1" "Preheader ex_second = Some 5"
    "Preheader ex_fourth = Some 8" "FCLoop ex_fourth = 3"
    by (simp_all add: ex_unguarded_def ex_second_def ex_fourth_def)
  have "2 \<le> length ex_row \<and> 1 \<le> length ex_row" by (simp add: len)
  with row have rows: "2 \<le> length ex_row \<and> 1 \<le> length ex_row
      \<and> (\<forall>k l. k < 1 \<and> k < l \<and> l < length ex_row \<longrightarrow>
      first_failure (IR ex_fuser) (ex_row ! k) (ex_row ! l) \<noteq> None)" by blast
  from fuseCandidates_checks_in_order
    [where CS = ex_row and S = ex_fuser and P = ex_fusion and m = 1, THEN conjunct2,
      THEN conjunct2, THEN conjunct2, THEN conjunct2, THEN conjunct1, THEN mp, OF rows]
  obtain S1 where S1: "fuseCandidateSet ex_fusion ex_row ex_fuser = fuseOuter ex_fusion ex_row 1 S1"
    "IR S1 = IR ex_fuser" "Fused S1 = Fused ex_fuser" "RemovedLoops S1 = RemovedLoops ex_fuser"
    "remarks (Diag S1) = remarks (Diag ex_fuser) @
        map (missed_remark (IR ex_fuser) ex_row) (pairs_between 0 1 (length ex_row))"
    by blast
  have start: "remarks (Diag ex_fuser) = []" "RemovedLoops ex_fuser = {}"
    by (simp_all add: ex_fuser_def no_diag_def)
  have rem1: "remarks (Diag S1) =
     [\<lparr>RemarkKind = OptimizationRemarkMissed, RemarkName = NonAdjacent,
       Cand1 = Some 1, Cand2 = Some 5\<rparr>,
      \<lparr>RemarkKind = OptimizationRemarkMissed, RemarkName = NonAdjacent,
       Cand1 = Some 1, Cand2 = Some 8\<rparr>]"
    using S1(5)
    by (simp add: start pairs missed_remark_def ir nth ex_row_failures pre del: One_nat_def)
  have pass: "checkFusion ex_A ex_second ex_fourth (Diag S1) = (True, Diag S1)"
    by (rule fuseCandidates_checks_in_order
        [where A = ex_A and ?FC0.0 = ex_second and ?FC1.0 = ex_fourth and d = "Diag S1",
          THEN conjunct1, THEN mp, OF ex_row_passes])
  let ?S2 = "S1\<lparr>Diag := reportLoopFusion OptimizationRemark ex_second ex_fourth FuseCounter (Diag S1),
      RemovedLoops := insert 3 (RemovedLoops S1), Fused := True\<rparr>"
  have erased: "erase_at (Suc 0) (erase_at 1 ex_row) = [ex_unguarded]"
    "erase_at 1 (erase_at 1 ex_row) = [ex_unguarded]"
    by (simp_all add: erase_at_def ex_row_def)
  have inner: "fuseInner ex_fusion ex_row 1 2 S1 = Inr ([ex_unguarded, ex_second], 1, ?S2)"
    apply (subst fuseInner.simps)
    apply (simp add: len nth S1(2) ir pass Let_def ex_fusion_def erased pre ex_row_insert
        ex_A_def [THEN arg_cong [of _ _ DT_dominates]] fuseInner_end
        del: One_nat_def CandidateSet_insert.simps)
    done
  have outer: "fuseOuter ex_fusion ex_row 1 S1 = Inr ([ex_unguarded, ex_second], ?S2)"
    apply (subst fuseOuter.simps)
    apply (simp add: len inner fuseOuter_end del: One_nat_def)
    done
  show "\<exists>S'. fuseCandidateSet ex_fusion ex_row ex_fuser = Inr ([ex_unguarded, ex_second], S')
     \<and> remarks (Diag S') =
         [\<lparr>RemarkKind = OptimizationRemarkMissed, RemarkName = NonAdjacent,
           Cand1 = Some 1, Cand2 = Some 5\<rparr>,
          \<lparr>RemarkKind = OptimizationRemarkMissed, RemarkName = NonAdjacent,
           Cand1 = Some 1, Cand2 = Some 8\<rparr>,
          \<lparr>RemarkKind = OptimizationRemark, RemarkName = FuseCounter,
           Cand1 = Some 5, Cand2 = Some 8\<rparr>]
     \<and> Fused S' \<and> RemovedLoops S' = {3}"
    using S1(1,4) outer rem1
    by (intro exI [of _ ?S2]) (simp add: start pre)
qed

text \<open>
  Where both candidates are unguarded, \<open>isAdjacent\<close> compares the exit block
  of the first with the preheader of the second.
\<close>

lemma isAdjacent_both_unguarded:
  "isAdjacent (FC0\<lparr>GuardBranch := None\<rparr>) (FC1\<lparr>GuardBranch := None\<rparr>)
     = (ExitBlock FC0 = Preheader FC1)"
  by (simp add: isAdjacent_def getEntryBlock_def)

lemma ex_mixed_dependences:
  "fst (dependencesAllowFusion ex_A_empty ex_unguarded ex_guarded d)"
proof -
  have l: "FCLoop ex_unguarded = 0" "FCLoop ex_guarded = 1"
    "MemWrites ex_unguarded = [30]" "MemWrites ex_guarded = [31]"
    "MemReads ex_unguarded = []" "MemReads ex_guarded = []"
    by (simp_all add: ex_unguarded_def ex_guarded_def)
  have ops: "getLoadStorePointerOperand ex_A_empty 30 = Some 50"
    "getLoadStorePointerOperand ex_A_empty 31 = Some 51"
    "SE_getSCEVAtScope ex_A_empty 50 0 = ex_ptr 0" "SE_getSCEVAtScope ex_A_empty 51 1 = ex_ptr 1"
    "FusionDependenceAnalysis ex_A_empty = FUSION_DEPENDENCE_ANALYSIS_ALL"
    by (simp_all add: ex_A_empty_def ex_A_def)
  have K: "SE_isKnownPredicate ex_A_empty ICMP_SGE (ex_ptr 1) (ex_ptr 1)"
    by (simp_all add: ex_A_empty_def ex_A_def)
  have v: "visit ex_A_empty True 0 1 (ex_ptr 0) = (ex_ptr 1, True)"
    by (simp add: ex_ptr_def)
  have c: "\<not> SCEVExprContains
      (HasNonLinearDominanceRelation ex_A_empty (Loop_getHeader ex_A_empty 0)) (ex_ptr 1)"
    by (simp add: ex_ptr_def ex_A_empty_def ex_A_def ex_DT_def)
  have acc: "accessDiffIsPositive ex_A_empty 0 1 30 31 False"
    using c
    by (simp add: accessDiffIsPositive_def ops v K Let_def del: One_nat_def)
  have use: "\<not> list_ex (\<lambda>BB.
                  list_ex (\<lambda>I.
                    list_ex (\<lambda>Op. Value_isInstruction ex_A_empty Op
                               \<and> Loop_containsBlock ex_A_empty 0 (Inst_getParent ex_A_empty Op))
                      (Inst_operands ex_A_empty I))
                    (BB_instructions ex_A_empty BB))
                (Loop_blocks ex_A_empty 1)"
    by (simp add: ex_A_empty_def ex_A_def)
  show ?thesis
    using acc use
    by (simp add: l ops dependencesAllowFusion_def dependencesAllowFusionInst_def
        del: One_nat_def)
qed

text \<open>
  C4.  For a first candidate without a guard the adjacency test is meant to succeed
  exactly when its exit block is the preheader of the second candidate; the
  documentation of \<open>isAdjacent\<close> says so, and \<open>performFusion\<close> asserts it.
  The test compares with the entry block of the second candidate instead, which for
  a guarded second candidate is the block of its guard.  On the example pair the
  first loop exits to block 4, which holds the guard of the second loop, whose
  preheader is block 5: the test succeeds, no other check of \<open>fuseCandidates\<close>
  rejects the pair, and the pair reaches \<open>performFusion\<close> with its assertion
  false.
\<close>

theorem isAdjacent_guarded_second_accepted:
  "GuardBranch ex_unguarded = None
   \<and> ExitBlock ex_unguarded = Some 4
   \<and> Preheader ex_guarded = Some 5
   \<and> getEntryBlock ex_guarded = Some 4
   \<and> isAdjacent ex_unguarded ex_guarded
   \<and> first_failure ex_A_empty ex_unguarded ex_guarded = None
   \<and> fst (checkFusion ex_A_empty ex_unguarded ex_guarded no_diag)
   \<and> \<not> performFusion_assertion ex_unguarded ex_guarded"
proof -
  have g: "GuardBranch ex_unguarded = None"
    "GuardBranch ex_guarded =
       Some \<lparr>getParent = 4, getCondition = 40, getSuccessor0 = 5, getSuccessor1 = 8\<rparr>"
    "ExitBlock ex_unguarded = Some 4" "Preheader ex_guarded = Some 5"
    "FCLoop ex_unguarded = 0" "FCLoop ex_guarded = 1"
    by (simp_all add: ex_unguarded_def ex_guarded_def)
  have adj: "isAdjacent ex_unguarded ex_guarded"
    by (simp add: isAdjacent_def getEntryBlock_def g)
  have tc: "fst (identicalTripCounts (SE_getBackedgeTakenCount ex_A_empty)
       ex_unguarded ex_guarded no_diag)"
    by (simp add: identicalTripCounts_fst g ex_A_empty_def ex_A_def)
  have pre: "isEmptyPreheader ex_A_empty ex_guarded"
    by (simp add: isEmptyPreheader_def ex_A_empty_def)
  have gb: "isEmptyGuardBlock ex_A_empty ex_guarded
      \<lparr>getParent = 4, getCondition = 40, getSuccessor0 = 5, getSuccessor1 = 8\<rparr>"
    by (simp add: isEmptyGuardBlock_def ex_A_empty_def)
  have ff: "first_failure ex_A_empty ex_unguarded ex_guarded = None"
    using adj tc pre gb ex_mixed_dependences [of no_diag]
    by (simp add: first_failure_chain g isBeneficialFusion_def)
  from first_failure_None [OF ff, of no_diag]
  have "fst (checkFusion ex_A_empty ex_unguarded ex_guarded no_diag)" by simp
  with ff adj show ?thesis
    by (simp add: g getEntryBlock_def performFusion_assertion_def)
qed

text \<open>
  C5.  The trip-count test accepts a pair exactly when both backedge-taken counts are
  computable and are the same expression object; no query about provable equality
  is involved.  An uncomputable count is counted in \<open>UncomputableTripCount\<close>,
  and on every failure \<open>fuseCandidates\<close> rejects the pair, counts it in
  \<open>NonEqualTripCount\<close> and emits the missed remark of that name.
\<close>

theorem identicalTripCounts_same_expression:
  "(fst (identicalTripCounts g FC0 FC1 d) \<longleftrightarrow>
      g (FCLoop FC0) \<noteq> SCEVCouldNotCompute \<and> g (FCLoop FC1) \<noteq> SCEVCouldNotCompute
      \<and> g (FCLoop FC0) = g (FCLoop FC1))
   \<and> (g (FCLoop FC0) = SCEVCouldNotCompute \<or> g (FCLoop FC1) = SCEVCouldNotCompute \<longrightarrow>
        stats (snd (identicalTripCounts g FC0 FC1 d)) UncomputableTripCount
          = stats d UncomputableTripCount + 1)
   \<and> (\<not> fst (identicalTripCounts (SE_getBackedgeTakenCount A) FC0 FC1 d) \<longrightarrow>
        \<not> fst (checkFusion A FC0 FC1 d)
        \<and> stats (snd (checkFusion A FC0 FC1 d)) NonEqualTripCount
            = stats d NonEqualTripCount + 1
        \<and> remarks (snd (checkFusion A FC0 FC1 d)) = remarks d @
            [\<lparr>RemarkKind = OptimizationRemarkMissed, RemarkName = NonEqualTripCount,
              Cand1 = Preheader FC0, Cand2 = Preheader FC1\<rparr>])"
proof (intro conjI impI)
  show "fst (identicalTripCounts g FC0 FC1 d) \<longleftrightarrow>
      g (FCLoop FC0) \<noteq> SCEVCouldNotCompute \<and> g (FCLoop FC1) \<noteq> SCEVCouldNotCompute
      \<and> g (FCLoop FC0) = g (FCLoop FC1)"
    by (rule identicalTripCounts_fst)
next
  assume "g (FCLoop FC0) = SCEVCouldNotCompute \<or> g (FCLoop FC1) = SCEVCouldNotCompute"
  then show "stats (snd (identicalTripCounts g FC0 FC1 d)) UncomputableTripCount
          = stats d UncomputableTripCount + 1"
    by (simp add: identicalTripCounts_snd)
next
  assume no: "\<not> fst (identicalTripCounts (SE_getBackedgeTakenCount A) FC0 FC1 d)"
  then have cf: "checkFusion A FC0 FC1 d =
      (False, reportLoopFusion OptimizationRemarkMissed FC0 FC1 NonEqualTripCount
         (snd (identicalTripCounts (SE_getBackedgeTakenCount A) FC0 FC1 d)))"
    by (simp add: checkFusion_def Let_def)
  show "\<not> fst (checkFusion A FC0 FC1 d)"
    by (simp add: cf)
  show "stats (snd (checkFusion A FC0 FC1 d)) NonEqualTripCount
            = stats d NonEqualTripCount + 1"
    by (simp add: cf identicalTripCounts_snd)
  show "remarks (snd (checkFusion A FC0 FC1 d)) = remarks d @
            [\<lparr>RemarkKind = OptimizationRemarkMissed, RemarkName = NonEqualTripCount,
              Cand1 = Preheader FC0, Cand2 = Preheader FC1\<rparr>]"
    by (simp add: cf identicalTripCounts_snd)
qed

theorem identicalTripCounts_same_expression_witness:
  "fst (identicalTripCounts (SE_getBackedgeTakenCount ex_A) ex_unguarded ex_guarded no_diag)
   \<and> \<not> fst (identicalTripCounts (SE_getBackedgeTakenCount ex_A) ex_guarded ex_third no_diag)
   \<and> stats (snd (identicalTripCounts (SE_getBackedgeTakenCount ex_A) ex_guarded ex_third no_diag))
        UncomputableTripCount = 1
   \<and> \<not> fst (checkFusion ex_A ex_guarded ex_third no_diag)
   \<and> stats (snd (checkFusion ex_A ex_guarded ex_third no_diag)) NonEqualTripCount = 1"
proof -
  have g: "SE_getBackedgeTakenCount ex_A (FCLoop ex_unguarded) = SCEVUnknown (IntegerTy 64) 100"
    "SE_getBackedgeTakenCount ex_A (FCLoop ex_guarded) = SCEVUnknown (IntegerTy 64) 100"
    "SE_getBackedgeTakenCount ex_A (FCLoop ex_third) = SCEVCouldNotCompute"
    by (simp_all add: ex_A_def ex_unguarded_def ex_guarded_def ex_third_def)
  have z: "stats no_diag s = 0" for s by (simp add: no_diag_def)
  show ?thesis
    using identicalTripCounts_same_expression
        [of "SE_getBackedgeTakenCount ex_A" ex_unguarded ex_guarded no_diag ex_A]
      identicalTripCounts_same_expression
        [of "SE_getBackedgeTakenCount ex_A" ex_guarded ex_third no_diag ex_A]
    by (simp add: g z)
qed

lemma visit_K [simp]:
  "visit (A\<lparr>SE_isKnownPredicate := K\<rparr>) U L0 L1 S = visit A U L0 L1 S"
  by (induction A U L0 L1 S rule: visit.induct) (auto simp: Let_def cong: map_cong)

lemma HasNonLinear_K [simp]:
  "HasNonLinearDominanceRelation (A\<lparr>SE_isKnownPredicate := K\<rparr>) H =
   HasNonLinearDominanceRelation A H"
proof
  fix S show "HasNonLinearDominanceRelation (A\<lparr>SE_isKnownPredicate := K\<rparr>) H S =
    HasNonLinearDominanceRelation A H S"
    by (cases S) auto
qed

lemma accessDiffIsPositive_K:
  "K (if E then ICMP_SGT else ICMP_SGE) = K' (if E then ICMP_SGT else ICMP_SGE) \<Longrightarrow>
   accessDiffIsPositive (A\<lparr>SE_isKnownPredicate := K\<rparr>) L0 L1 I0 I1 E
   = accessDiffIsPositive (A\<lparr>SE_isKnownPredicate := K'\<rparr>) L0 L1 I0 I1 E"
  by (auto simp: accessDiffIsPositive_def Let_def split: option.splits)

lemma depInst_K:
  "K ICMP_SGE = K' ICMP_SGE \<Longrightarrow>
   dependencesAllowFusionInst (A\<lparr>SE_isKnownPredicate := K\<rparr>) FC0 FC1 I0 I1 False C
   = dependencesAllowFusionInst (A\<lparr>SE_isKnownPredicate := K'\<rparr>) FC0 FC1 I0 I1 False C"
  using accessDiffIsPositive_K [of K False K' A "FCLoop FC0" "FCLoop FC1" I0 I1]
  by (simp add: dependencesAllowFusionInst_def split: FusionDependenceAnalysisChoice.splits)

lemma dependencesAllowFusion_K:
  "K ICMP_SGE = K' ICMP_SGE \<Longrightarrow>
   dependencesAllowFusion (A\<lparr>SE_isKnownPredicate := K\<rparr>) FC0 FC1 d
   = dependencesAllowFusion (A\<lparr>SE_isKnownPredicate := K'\<rparr>) FC0 FC1 d"
  unfolding dependencesAllowFusion_def
  by (simp add: depInst_K [of K K'])

text \<open>
  C3 (as amended).  \<open>accessDiffIsPositive\<close> asks scalar evolution for \<open>>\<close>
  only when its caller passes \<open>EqualIsInvalid\<close>, and for \<open>>=\<close> otherwise.
  \<open>dependencesAllowFusion\<close> passes false for every pair it tests, write against
  write, write against read and read against write alike: its outcome depends on
  the answers of scalar evolution for \<open>>=\<close> only, so addresses proved equal do
  not block fusion.
\<close>

theorem dependencesAllowFusion_compares_with_SGE:
  "(\<forall>Ptr0 Ptr1.
       getLoadStorePointerOperand A I0 = Some Ptr0
       \<and> getLoadStorePointerOperand A I1 = Some Ptr1
       \<and> snd (visit A True L0 L1 (SE_getSCEVAtScope A Ptr0 L0))
       \<and> \<not> SCEVExprContains (HasNonLinearDominanceRelation A (Loop_getHeader A L0))
             (SE_getSCEVAtScope A Ptr1 L1) \<longrightarrow>
       accessDiffIsPositive A L0 L1 I0 I1 EqualIsInvalid =
         SE_isKnownPredicate A (if EqualIsInvalid then ICMP_SGT else ICMP_SGE)
           (fst (visit A True L0 L1 (SE_getSCEVAtScope A Ptr0 L0)))
           (SE_getSCEVAtScope A Ptr1 L1))
   \<and> (K ICMP_SGE = K' ICMP_SGE \<longrightarrow>
        dependencesAllowFusion (A\<lparr>SE_isKnownPredicate := K\<rparr>) FC0 FC1 d
        = dependencesAllowFusion (A\<lparr>SE_isKnownPredicate := K'\<rparr>) FC0 FC1 d)"
proof (intro conjI allI impI)
  fix Ptr0 Ptr1
  assume "getLoadStorePointerOperand A I0 = Some Ptr0
       \<and> getLoadStorePointerOperand A I1 = Some Ptr1
       \<and> snd (visit A True L0 L1 (SE_getSCEVAtScope A Ptr0 L0))
       \<and> \<not> SCEVExprContains (HasNonLinearDominanceRelation A (Loop_getHeader A L0))
             (SE_getSCEVAtScope A Ptr1 L1)"
  then show "accessDiffIsPositive A L0 L1 I0 I1 EqualIsInvalid =
         SE_isKnownPredicate A (if EqualIsInvalid then ICMP_SGT else ICMP_SGE)
           (fst (visit A True L0 L1 (SE_getSCEVAtScope A Ptr0 L0)))
           (SE_getSCEVAtScope A Ptr1 L1)"
    by (simp add: accessDiffIsPositive_def Let_def)
next
  assume "K ICMP_SGE = K' ICMP_SGE"
  then show "dependencesAllowFusion (A\<lparr>SE_isKnownPredicate := K\<rparr>) FC0 FC1 d
        = dependencesAllowFusion (A\<lparr>SE_isKnownPredicate := K'\<rparr>) FC0 FC1 d"
    by (rule dependencesAllowFusion_K)
qed

lemma ex_visit: "visit ex_A True 0 1 (ex_ptr 0) = (ex_ptr 1, True)"
  by (simp add: ex_ptr_def)

lemma ex_contains:
  "\<not> SCEVExprContains (HasNonLinearDominanceRelation ex_A (Loop_getHeader ex_A 0)) (ex_ptr 1)"
  by (simp add: ex_ptr_def ex_A_def ex_DT_def)

theorem dependencesAllowFusion_compares_with_SGE_witness:
  "accessDiffIsPositive ex_A 0 1 30 31 False
   \<and> \<not> accessDiffIsPositive ex_A 0 1 30 31 True
   \<and> dependencesAllowFusion (ex_A\<lparr>SE_isKnownPredicate := (\<lambda>p a b. p = ICMP_SGE)\<rparr>)
        ex_unguarded ex_guarded no_diag
     = dependencesAllowFusion (ex_A\<lparr>SE_isKnownPredicate := (\<lambda>p a b. True)\<rparr>)
        ex_unguarded ex_guarded no_diag"
proof -
  have ops: "getLoadStorePointerOperand ex_A 30 = Some 50"
    "getLoadStorePointerOperand ex_A 31 = Some 51"
    "SE_getSCEVAtScope ex_A 50 0 = ex_ptr 0" "SE_getSCEVAtScope ex_A 51 1 = ex_ptr 1"
    by (simp_all add: ex_A_def)
  have K: "SE_isKnownPredicate ex_A ICMP_SGE (ex_ptr 1) (ex_ptr 1)"
    "\<not> SE_isKnownPredicate ex_A ICMP_SGT (ex_ptr 1) (ex_ptr 1)"
    by (simp_all add: ex_A_def)
  have eq: "(\<lambda>p (a::scev) (b::scev). p = ICMP_SGE) ICMP_SGE = (\<lambda>p a b. True) ICMP_SGE"
    by simp
  show ?thesis
    using dependencesAllowFusion_compares_with_SGE
        [of ex_A 30 31 0 1 False "\<lambda>p a b. p = ICMP_SGE" "\<lambda>p a b. True"
          ex_unguarded ex_guarded no_diag]
      dependencesAllowFusion_compares_with_SGE
        [of ex_A 30 31 0 1 True "\<lambda>p a b. p = ICMP_SGE" "\<lambda>p a b. True"
          ex_unguarded ex_guarded no_diag]
      ops ex_visit ex_contains K eq
    by simp
qed

text \<open>
  The claim as first stated fails on two stores to the same element: the rewritten
  address of the first store is provably equal to, and not provably greater than,
  the address of the second, and the pair passes the dependence check.
\<close>

theorem dependencesAllowFusion_equal_addresses_counterexample:
  "MemWrites ex_unguarded = [30] \<and> MemWrites ex_guarded = [31]
   \<and> getLoadStorePointerOperand ex_A 30 = Some 50
   \<and> getLoadStorePointerOperand ex_A 31 = Some 51
   \<and> SE_isKnownPredicate ex_A ICMP_EQ
        (fst (visit ex_A True (FCLoop ex_unguarded) (FCLoop ex_guarded)
               (SE_getSCEVAtScope ex_A 50 (FCLoop ex_unguarded))))
        (SE_getSCEVAtScope ex_A 51 (FCLoop ex_guarded))
   \<and> \<not> SE_isKnownPredicate ex_A ICMP_SGT
        (fst (visit ex_A True (FCLoop ex_unguarded) (FCLoop ex_guarded)
               (SE_getSCEVAtScope ex_A 50 (FCLoop ex_unguarded))))
        (SE_getSCEVAtScope ex_A 51 (FCLoop ex_guarded))
   \<and> dependencesAllowFusionInst ex_A ex_unguarded ex_guarded 30 31 False
        FUSION_DEPENDENCE_ANALYSIS_SCEV
   \<and> fst (dependencesAllowFusion ex_A ex_unguarded ex_guarded no_diag)"
proof -
  have l: "FCLoop ex_unguarded = 0" "FCLoop ex_guarded = 1"
    "MemWrites ex_unguarded = [30]" "MemWrites ex_guarded = [31]"
    "MemReads ex_unguarded = []" "MemReads ex_guarded = []"
    by (simp_all add: ex_unguarded_def ex_guarded_def)
  have ops: "getLoadStorePointerOperand ex_A 30 = Some 50"
    "getLoadStorePointerOperand ex_A 31 = Some 51"
    "SE_getSCEVAtScope ex_A 50 0 = ex_ptr 0" "SE_getSCEVAtScope ex_A 51 1 = ex_ptr 1"
    "FusionDependenceAnalysis ex_A = FUSION_DEPENDENCE_ANALYSIS_ALL"
    by (simp_all add: ex_A_def)
  have K: "SE_isKnownPredicate ex_A ICMP_SGE (ex_ptr 1) (ex_ptr 1)"
    "SE_isKnownPredicate ex_A ICMP_EQ (ex_ptr 1) (ex_ptr 1)"
    "\<not> SE_isKnownPredicate ex_A ICMP_SGT (ex_ptr 1) (ex_ptr 1)"
    by (simp_all add: ex_A_def)
  have acc: "accessDiffIsPositive ex_A 0 1 30 31 False"
    using ex_contains
    by (simp add: accessDiffIsPositive_def ops ex_visit K Let_def del: One_nat_def)
  have use: "\<not> list_ex (\<lambda>BB.
                  list_ex (\<lambda>I.
                    list_ex (\<lambda>Op. Value_isInstruction ex_A Op
                               \<and> Loop_containsBlock ex_A 0 (Inst_getParent ex_A Op))
                      (Inst_operands ex_A I))
                    (BB_instructions ex_A BB))
                (Loop_blocks ex_A 1)"
    by (simp add: ex_A_def)
  show ?thesis
    using acc use
    by (simp add: l ops ex_visit K dependencesAllowFusion_def dependencesAllowFusionInst_def
        del: One_nat_def)
qed


section \<open>Properties of loop predication\<close>

subsection \<open>Parsing\<close>

text \<open>
  C6 (as amended).  \<open>parseLoopICmp\<close> returns nothing exactly when the symbolic
  form of an operand cannot be computed, or the left side after the swap is not an
  add recurrence of this loop.  The swap happens when the left operand is
  loop-invariant: it exchanges the sides and replaces the predicate by the predicate
  of the exchanged comparison.  In every other case the parsed comparison is
  returned; whether the recurrence is affine is not tested here but by the callers.
\<close>

theorem parseLoopICmp_None_iff:
  "(parseLoopICmp E P LHS RHS = None \<longleftrightarrow>
      SE_getSCEV E LHS = SCEVCouldNotCompute
      \<or> SE_getSCEV E RHS = SCEVCouldNotCompute
      \<or> \<not> (\<exists>ops flags.
             (if SE_isLoopInvariant E (SE_getSCEV E LHS) (LP_L E)
              then SE_getSCEV E RHS else SE_getSCEV E LHS)
             = SCEVAddRecExpr ops (LP_L E) flags))
   \<and> (parseLoopICmp E P LHS RHS \<noteq> None \<longrightarrow>
        parseLoopICmp E P LHS RHS =
          Some (if SE_isLoopInvariant E (SE_getSCEV E LHS) (LP_L E)
                then \<lparr>Pred = getSwappedPredicate P, IV = SE_getSCEV E RHS,
                      Limit = SE_getSCEV E LHS\<rparr>
                else \<lparr>Pred = P, IV = SE_getSCEV E LHS, Limit = SE_getSCEV E RHS\<rparr>))"
  by (auto simp: parseLoopICmp_def Let_def split: scev.splits)

text \<open>
  In the example \<open>%10 u> %20\<close> parses as \<open>{0,+,1} u< %10\<close>; a comparison with
  an operand that has no symbolic form, and one between two invariants, do not parse.
\<close>

theorem parseLoopICmp_None_iff_witness:
  "parseLoopICmp ex_E ICMP_UGT (OtherValue 10) (OtherValue 20)
     = Some \<lparr>Pred = ICMP_ULT, IV = ex_iv, Limit = ex_N\<rparr>
   \<and> parseLoopICmp ex_E ICMP_ULT (OtherValue 20) (OtherValue 23) = None
   \<and> parseLoopICmp ex_E ICMP_ULT (OtherValue 10) (OtherValue 11) = None"
proof -
  have s: "SE_getSCEV ex_E (OtherValue 10) = ex_N" "SE_getSCEV ex_E (OtherValue 20) = ex_iv"
    "SE_getSCEV ex_E (OtherValue 23) = SCEVCouldNotCompute"
    "SE_getSCEV ex_E (OtherValue 11) = ex_M"
    by (simp_all add: ex_E_def ex_N_def ex_M_def)
  have i: "SE_isLoopInvariant ex_E ex_N (LP_L ex_E)"
    "\<not> SE_isLoopInvariant ex_E ex_iv (LP_L ex_E)"
    by (simp_all add: ex_E_def ex_N_def ex_iv_def)
  have n: "ex_N \<noteq> SCEVCouldNotCompute" "ex_iv \<noteq> SCEVCouldNotCompute"
    "ex_M \<noteq> SCEVCouldNotCompute"
    "\<forall>ops flags. ex_M \<noteq> SCEVAddRecExpr ops (LP_L ex_E) flags"
    "\<exists>ops flags. ex_iv = SCEVAddRecExpr ops (LP_L ex_E) flags"
    by (simp_all add: ex_N_def ex_iv_def ex_M_def ex_E_def)
  note t1 = parseLoopICmp_None_iff [of ex_E ICMP_UGT "OtherValue 10" "OtherValue 20"]
  note t2 = parseLoopICmp_None_iff [of ex_E ICMP_ULT "OtherValue 20" "OtherValue 23"]
  note t3 = parseLoopICmp_None_iff [of ex_E ICMP_ULT "OtherValue 10" "OtherValue 11"]
  have "parseLoopICmp ex_E ICMP_UGT (OtherValue 10) (OtherValue 20) \<noteq> None"
    using t1 [THEN conjunct1] n by (simp only: s i if_True) simp
  with t1 [THEN conjunct2]
  have 1: "parseLoopICmp ex_E ICMP_UGT (OtherValue 10) (OtherValue 20)
     = Some \<lparr>Pred = ICMP_ULT, IV = ex_iv, Limit = ex_N\<rparr>"
    by (simp add: s i)
  have 2: "parseLoopICmp ex_E ICMP_ULT (OtherValue 20) (OtherValue 23) = None"
    using t2 [THEN conjunct1] by (simp only: s) simp
  have 3: "parseLoopICmp ex_E ICMP_ULT (OtherValue 10) (OtherValue 11) = None"
    using t3 [THEN conjunct1] n by (simp only: s i if_True) simp
  from 1 2 3 show ?thesis by simp
qed

text \<open>
  The claim as first stated asks for an affine left side.  The recurrence
  \<open>{0,+,1,+,1}\<close> of the loop is not affine, and the comparison parses.
\<close>

theorem parseLoopICmp_affine_counterexample:
  "SE_getSCEV ex_E (OtherValue 22) = ex_quadratic
   \<and> \<not> SE_isLoopInvariant ex_E ex_quadratic (LP_L ex_E)
   \<and> \<not> isAffine ex_quadratic
   \<and> parseLoopICmp ex_E ICMP_ULT (OtherValue 22) (OtherValue 10)
       = Some \<lparr>Pred = ICMP_ULT, IV = ex_quadratic, Limit = ex_N\<rparr>"
  by (simp add: parseLoopICmp_def ex_E_def ex_quadratic_def ex_N_def)

subsection \<open>The checks collected from a guard\<close>

declare collectChecks_loop.simps [simp del]


lemma widenInc_not_wc:
  "widenICmpRangeCheckIncrementingLoop E LC RC = Some V \<Longrightarrow> \<not> is_widenable_condition V"
  by (auto simp: widenICmpRangeCheckIncrementingLoop_def Let_def split: if_splits)

lemma widenDec_not_wc:
  "widenICmpRangeCheckDecrementingLoop E LC RC = Some V \<Longrightarrow> \<not> is_widenable_condition V"
  by (auto simp: widenICmpRangeCheckDecrementingLoop_def Let_def split: if_splits)

lemma widenICmpRangeCheck_not_wc:
  assumes "widenICmpRangeCheck E P LHS RHS = Some V"
  shows "\<not> is_widenable_condition V"
proof -
  from assms obtain RC where rc: "parseLoopICmp E P LHS RHS = Some RC"
    by (cases "parseLoopICmp E P LHS RHS") (simp_all add: widenICmpRangeCheck_def)
  from assms rc obtain LC where
    lc: "generateLoopLatchCheck E (LatchCheck E) (getType (IV RC)) = Some LC"
    by (cases "generateLoopLatchCheck E (LatchCheck E) (getType (IV RC))")
      (simp_all add: widenICmpRangeCheck_def Let_def split: if_splits)
  from assms rc lc have
    "widenICmpRangeCheckIncrementingLoop E LC RC = Some V
     \<or> widenICmpRangeCheckDecrementingLoop E LC RC = Some V"
    by (simp add: widenICmpRangeCheck_def Let_def split: if_splits)
  then show ?thesis
    using widenInc_not_wc widenDec_not_wc by blast
qed

lemma widen_not_wc: "widen E C = Some V \<Longrightarrow> \<not> is_widenable_condition V"
  by (auto simp: widen_def dest: widenICmpRangeCheck_not_wc split: option.splits)

lemma match_And_wc: "match_And V = Some p \<Longrightarrow> \<not> is_widenable_condition V"
  by (cases V) auto

lemma conjuncts_no_And: "match_And V = None \<Longrightarrow> conjuncts V = [V]"
  by (cases V) auto

lemma conjuncts_match_And:
  "match_And V = Some (LHS, RHS) \<Longrightarrow> conjuncts V = conjuncts LHS @ conjuncts RHS"
  by (cases V) auto


lemma children_closedD:
  "children_closed Vis W \<Longrightarrow> V \<in> Vis \<Longrightarrow> match_And V = Some (LHS, RHS) \<Longrightarrow>
   LHS \<in> Vis \<union> W \<and> RHS \<in> Vis \<union> W"
  unfolding children_closed_def by blast

lemma closed_conjuncts:
  "children_closed Vis {} \<Longrightarrow> V \<in> Vis \<Longrightarrow> set (conjuncts V) \<subseteq> Vis"
proof (induction V rule: conjuncts.induct)
  case (1 a LHS RHS)
  from children_closedD [OF "1.prems", of LHS RHS]
  have "LHS \<in> Vis" "RHS \<in> Vis" by simp_all
  with 1 show ?case by simp
next
  case (2 LHS RHS pt)
  from children_closedD [OF "2.prems", of LHS RHS]
  have "LHS \<in> Vis" "RHS \<in> Vis" by simp_all
  with 2 show ?case by simp
qed simp_all

lemma loop_step_visited:
  "Condition \<in> Visited \<Longrightarrow>
   collectChecks_loop E (Condition # Worklist) Visited WC Checks N =
   collectChecks_loop E Worklist Visited WC Checks N"
  by (simp add: collectChecks_loop.simps(2))

lemma loop_step_and:
  "Condition \<notin> Visited \<Longrightarrow> match_And Condition = Some (LHS, RHS) \<Longrightarrow>
   collectChecks_loop E (Condition # Worklist) Visited WC Checks N =
   collectChecks_loop E (RHS # LHS # Worklist) (insert Condition Visited) WC Checks N"
  by (subst collectChecks_loop.simps(2)) simp

lemma loop_step_wc:
  "Condition \<notin> Visited \<Longrightarrow> match_And Condition = None \<Longrightarrow>
   is_widenable_condition Condition \<Longrightarrow>
   collectChecks_loop E (Condition # Worklist) Visited WC Checks N =
   collectChecks_loop E Worklist (insert Condition Visited) (Some Condition) Checks N"
  by (subst collectChecks_loop.simps(2)) simp

lemma loop_step_widened:
  "Condition \<notin> Visited \<Longrightarrow> match_And Condition = None \<Longrightarrow>
   \<not> is_widenable_condition Condition \<Longrightarrow> widen E Condition = Some New \<Longrightarrow>
   collectChecks_loop E (Condition # Worklist) Visited WC Checks N =
   collectChecks_loop E Worklist (insert Condition Visited) WC (Checks @ [New]) (N + 1)"
  by (subst collectChecks_loop.simps(2)) simp

lemma loop_step_kept:
  "Condition \<notin> Visited \<Longrightarrow> match_And Condition = None \<Longrightarrow>
   \<not> is_widenable_condition Condition \<Longrightarrow> widen E Condition = None \<Longrightarrow>
   collectChecks_loop E (Condition # Worklist) Visited WC Checks N =
   collectChecks_loop E Worklist (insert Condition Visited) WC (Checks @ [Condition]) N"
  by (subst collectChecks_loop.simps(2)) simp

lemma loop_checks:
  "collectChecks_loop E W Vis WC Checks N = (Checks', WC', N') \<Longrightarrow>
   \<forall>c \<in> set Checks. \<not> is_widenable_condition c \<Longrightarrow>
   \<forall>c \<in> set Checks'. \<not> is_widenable_condition c"
proof (induction E W Vis WC Checks N rule: collectChecks_loop.induct)
  case (1 E Visited WideableCond Checks NumWidened)
  then show ?case by (simp add: collectChecks_loop.simps(1))
next
  case (2 E Condition Worklist Visited WideableCond Checks NumWidened)
  show ?case
  proof (cases "Condition \<in> Visited")
    case True
    from "2.IH"(1) [OF True] "2.prems" show ?thesis
      by (simp add: loop_step_visited [OF True])
  next
    case nv: False
    show ?thesis
    proof (cases "match_And Condition")
      case (Some p)
      obtain LHS RHS where p: "match_And Condition = Some (LHS, RHS)"
        using Some by (cases p) simp
      from "2.IH"(5) [OF nv p refl] "2.prems" show ?thesis
        by (simp add: loop_step_and [OF nv p])
    next
      case na: None
      show ?thesis
      proof (cases "is_widenable_condition Condition")
        case True
        from "2.IH"(2) [OF nv na True] "2.prems" show ?thesis
          by (simp add: loop_step_wc [OF nv na True])
      next
        case nw: False
        show ?thesis
        proof (cases "widen E Condition")
          case None
          from "2.IH"(3) [OF nv na nw None] "2.prems" nw show ?thesis
            by (simp add: loop_step_kept [OF nv na nw None])
        next
          case (Some New)
          from "2.IH"(4) [OF nv na nw Some] "2.prems" widen_not_wc [OF Some] show ?thesis
            by (simp add: loop_step_widened [OF nv na nw Some])
        qed
      qed
    qed
  qed
qed

lemma loop_wc_origin:
  "collectChecks_loop E W Vis WC Checks N = (Checks', WC', N') \<Longrightarrow> WC' = Some c \<Longrightarrow>
   WC = Some c \<or> (is_widenable_condition c \<and> c \<in> (\<Union>V \<in> set W. set (conjuncts V)))"
proof (induction E W Vis WC Checks N rule: collectChecks_loop.induct)
  case (1 E Visited WideableCond Checks NumWidened)
  then show ?case by (simp add: collectChecks_loop.simps(1))
next
  case (2 E Condition Worklist Visited WideableCond Checks NumWidened)
  show ?case
  proof (cases "Condition \<in> Visited")
    case True
    from "2.IH"(1) [OF True] "2.prems" show ?thesis
      by (auto simp: loop_step_visited [OF True])
  next
    case nv: False
    show ?thesis
    proof (cases "match_And Condition")
      case (Some p)
      obtain LHS RHS where p: "match_And Condition = Some (LHS, RHS)"
        using Some by (cases p) simp
      from "2.IH"(5) [OF nv p refl] "2.prems"
      have "WideableCond = Some c \<or> (is_widenable_condition c \<and>
          c \<in> (\<Union>V \<in> set (RHS # LHS # Worklist). set (conjuncts V)))"
        by (simp add: loop_step_and [OF nv p])
      then show ?thesis
        using conjuncts_match_And [OF p] by auto
    next
      case na: None
      show ?thesis
      proof (cases "is_widenable_condition Condition")
        case True
        from "2.IH"(2) [OF nv na True] "2.prems"
        have "Some Condition = Some c \<or> (is_widenable_condition c \<and>
          c \<in> (\<Union>V \<in> set Worklist. set (conjuncts V)))"
          by (simp add: loop_step_wc [OF nv na True])
        then show ?thesis
          using True conjuncts_no_And [OF na] by auto
      next
        case nw: False
        show ?thesis
        proof (cases "widen E Condition")
          case None
          from "2.IH"(3) [OF nv na nw None] "2.prems"
          show ?thesis by (auto simp: loop_step_kept [OF nv na nw None])
        next
          case (Some New)
          from "2.IH"(4) [OF nv na nw Some] "2.prems"
          show ?thesis by (auto simp: loop_step_widened [OF nv na nw Some])
        qed
      qed
    qed
  qed
qed

lemma loop_wc_found:
  "collectChecks_loop E W Vis WC Checks N = (Checks', WC', N') \<Longrightarrow>
   children_closed Vis (set W) \<Longrightarrow>
   \<forall>V \<in> Vis. is_widenable_condition V \<longrightarrow> WC \<noteq> None \<Longrightarrow>
   \<exists>Vis'. Vis \<union> set W \<subseteq> Vis' \<and> children_closed Vis' {}
     \<and> (\<forall>V \<in> Vis'. is_widenable_condition V \<longrightarrow> WC' \<noteq> None)"
proof (induction E W Vis WC Checks N rule: collectChecks_loop.induct)
  case (1 E Visited WideableCond Checks NumWidened)
  then show ?case by (auto simp: collectChecks_loop.simps(1))
next
  case (2 E Condition Worklist Visited WideableCond Checks NumWidened)
  show ?case
  proof (cases "Condition \<in> Visited")
    case True
    have cl: "children_closed Visited (set Worklist)"
      using "2.prems"(2) True by (auto simp: children_closed_def)
    have run: "collectChecks_loop E Worklist Visited WideableCond Checks NumWidened
        = (Checks', WC', N')"
      using "2.prems"(1) by (simp add: loop_step_visited [OF True])
    from "2.IH"(1) [OF True run cl "2.prems"(3)]
    obtain Vis' where "Visited \<union> set Worklist \<subseteq> Vis'" "children_closed Vis' {}"
      "\<forall>V \<in> Vis'. is_widenable_condition V \<longrightarrow> WC' \<noteq> None"
      by auto
    with True show ?thesis by (intro exI [of _ Vis']) auto
  next
    case nv: False
    show ?thesis
    proof (cases "match_And Condition")
      case (Some p)
      obtain LHS RHS where p: "match_And Condition = Some (LHS, RHS)"
        using Some by (cases p) simp
      have cl: "children_closed (insert Condition Visited) (set (RHS # LHS # Worklist))"
        using "2.prems"(2) p by (auto simp: children_closed_def)
      have wc: "\<forall>V \<in> insert Condition Visited.
          is_widenable_condition V \<longrightarrow> WideableCond \<noteq> None"
        using "2.prems"(3) match_And_wc [OF p] by auto
      have run: "collectChecks_loop E (RHS # LHS # Worklist) (insert Condition Visited)
          WideableCond Checks NumWidened = (Checks', WC', N')"
        using "2.prems"(1) by (simp add: loop_step_and [OF nv p])
      from "2.IH"(5) [OF nv p refl run cl wc]
      obtain Vis' where "insert Condition Visited \<union> set (RHS # LHS # Worklist) \<subseteq> Vis'"
        "children_closed Vis' {}"
        "\<forall>V \<in> Vis'. is_widenable_condition V \<longrightarrow> WC' \<noteq> None"
        by auto
      then show ?thesis by (intro exI [of _ Vis']) auto
    next
      case na: None
      have cl: "children_closed (insert Condition Visited) (set Worklist)"
        using "2.prems"(2) na by (auto simp: children_closed_def)
      show ?thesis
      proof (cases "is_widenable_condition Condition")
        case True
        have run: "collectChecks_loop E Worklist (insert Condition Visited)
            (Some Condition) Checks NumWidened = (Checks', WC', N')"
          using "2.prems"(1) by (simp add: loop_step_wc [OF nv na True])
        from "2.IH"(2) [OF nv na True run cl]
        obtain Vis' where "insert Condition Visited \<union> set Worklist \<subseteq> Vis'"
          "children_closed Vis' {}"
          "\<forall>V \<in> Vis'. is_widenable_condition V \<longrightarrow> WC' \<noteq> None"
          by auto
        then show ?thesis by (intro exI [of _ Vis']) auto
      next
        case nw: False
        have wc: "\<forall>V \<in> insert Condition Visited.
            is_widenable_condition V \<longrightarrow> WideableCond \<noteq> None"
          using "2.prems"(3) nw by auto
        show ?thesis
        proof (cases "widen E Condition")
          case None
          have run: "collectChecks_loop E Worklist (insert Condition Visited)
              WideableCond (Checks @ [Condition]) NumWidened = (Checks', WC', N')"
            using "2.prems"(1) by (simp add: loop_step_kept [OF nv na nw None])
          from "2.IH"(3) [OF nv na nw None run cl wc]
          obtain Vis' where "insert Condition Visited \<union> set Worklist \<subseteq> Vis'"
            "children_closed Vis' {}"
            "\<forall>V \<in> Vis'. is_widenable_condition V \<longrightarrow> WC' \<noteq> None"
            by auto
          then show ?thesis by (intro exI [of _ Vis']) auto
        next
          case (Some New)
          have run: "collectChecks_loop E Worklist (insert Condition Visited)
              WideableCond (Checks @ [New]) (NumWidened + 1) = (Checks', WC', N')"
            using "2.prems"(1) by (simp add: loop_step_widened [OF nv na nw Some])
          from "2.IH"(4) [OF nv na nw Some run cl wc]
          obtain Vis' where "insert Condition Visited \<union> set Worklist \<subseteq> Vis'"
            "children_closed Vis' {}"
            "\<forall>V \<in> Vis'. is_widenable_condition V \<longrightarrow> WC' \<noteq> None"
            by auto
          then show ?thesis by (intro exI [of _ Vis']) auto
        qed
      qed
    qed
  qed
qed


text \<open>
  C10.  The check list \<open>collectChecks\<close> builds holds at most one call of the
  widenable-condition intrinsic.  When the conjunction has such calls, however many,
  exactly one of them is kept, and it stands last, after every other sub-condition,
  widened or not; when it has none, the list has none.
\<close>

theorem collectChecks_one_widenable_condition:
  "length (filter is_widenable_condition (fst (collectChecks E [] Condition))) \<le> 1
   \<and> (list_ex is_widenable_condition (conjuncts Condition) \<longrightarrow>
        (\<exists>Checks WC. fst (collectChecks E [] Condition) = Checks @ [WC]
           \<and> is_widenable_condition WC \<and> WC \<in> set (conjuncts Condition)
           \<and> \<not> list_ex is_widenable_condition Checks))
   \<and> (\<not> list_ex is_widenable_condition (conjuncts Condition) \<longrightarrow>
        \<not> list_ex is_widenable_condition (fst (collectChecks E [] Condition)))"
proof -
  obtain Checks' WC' N' where
    run: "collectChecks_loop E [Condition] {} None [] 0 = (Checks', WC', N')"
    by (cases "collectChecks_loop E [Condition] {} None [] 0") auto
  have no_wc: "\<forall>c \<in> set Checks'. \<not> is_widenable_condition c"
    using loop_checks [OF run] by simp
  then have filt: "filter is_widenable_condition Checks' = []"
    by (simp add: filter_empty_conv)
  have origin: "is_widenable_condition c \<and> c \<in> set (conjuncts Condition)"
    if "WC' = Some c" for c
    using loop_wc_origin [OF run that] by simp
  have found: "WC' \<noteq> None" if "list_ex is_widenable_condition (conjuncts Condition)"
  proof -
    have "children_closed {} (set [Condition])"
      by (simp add: children_closed_def)
    from loop_wc_found [OF run this] obtain Vis' where
      V: "Condition \<in> Vis'" "children_closed Vis' {}"
        "\<forall>V \<in> Vis'. is_widenable_condition V \<longrightarrow> WC' \<noteq> None"
      by auto
    from closed_conjuncts [OF V(2) V(1)] that V(3) show ?thesis
      by (auto simp: list_ex_iff)
  qed
  show ?thesis
  proof (cases WC')
    case None
    then have res: "fst (collectChecks E [] Condition) = Checks'"
      by (simp add: collectChecks_def run)
    from None found have "\<not> list_ex is_widenable_condition (conjuncts Condition)"
      by auto
    with res filt no_wc show ?thesis
      by (simp add: list_ex_iff)
  next
    case (Some c)
    then have res: "fst (collectChecks E [] Condition) = Checks' @ [c]"
      by (simp add: collectChecks_def run)
    from origin [OF Some] have c: "is_widenable_condition c" "c \<in> set (conjuncts Condition)"
      by simp_all
    then have "list_ex is_widenable_condition (conjuncts Condition)"
      by (auto simp: list_ex_iff)
    with res filt no_wc c show ?thesis
      by (auto simp: list_ex_iff)
  qed
qed

lemma ex_widen:
  "widen ex_E (ICmp 3 ICMP_ULT (OtherValue 20) (OtherValue 10)) = Some ex_widened"
  by (simp add: widen_def widenICmpRangeCheck_def parseLoopICmp_def ex_E_def ex_iv_def ex_N_def
      ex_M_def ex_iv_next_def ex_latch_def isSupportedStep_def generateLoopLatchCheck_def
      widenICmpRangeCheckIncrementingLoop_def isLoopInvariantValue_def expandCheck_def
      findInsertPt_def findInsertPtSCEV_def ex_widened_def getOne_def getAddExpr_def
      getMinusSCEV_def i32_def Let_def)

text \<open>
  The example condition has the two calls 4 and 6; the list is the unwidened value
  7, the widened range check, and the call 4.
\<close>

theorem collectChecks_one_widenable_condition_witness:
  "list_ex is_widenable_condition (conjuncts ex_condition)
   \<and> filter is_widenable_condition (conjuncts ex_condition)
       = [WidenableCondition 4, WidenableCondition 6]
   \<and> collectChecks ex_E [] ex_condition
       = ([OtherValue 7, ex_widened, WidenableCondition 4], 1)
   \<and> length (filter is_widenable_condition (fst (collectChecks ex_E [] ex_condition))) \<le> 1"
proof -
  have c: "filter is_widenable_condition (conjuncts ex_condition)
       = [WidenableCondition 4, WidenableCondition 6]"
    by (simp add: ex_condition_def)
  then have e: "list_ex is_widenable_condition (conjuncts ex_condition)"
    by (simp add: ex_condition_def)
  have w7: "widen ex_E (OtherValue 7) = None"
    by (simp add: widen_def)
  have r: "collectChecks ex_E [] ex_condition
       = ([OtherValue 7, ex_widened, WidenableCondition 4], 1)"
    by (simp add: collectChecks_def ex_condition_def collectChecks_loop.simps ex_widen w7)
  from collectChecks_one_widenable_condition [of ex_E ex_condition] c e r
  show ?thesis by blast
qed


subsection \<open>The check of an incrementing loop\<close>

lemma icmp_inverse: "icmp w (getInversePredicate P) x y = (\<not> icmp w P x y)"
  by (cases P) auto

lemma eval_scev_reduced:
  "eval_scev bits \<rho> S = Some x \<Longrightarrow> x mod 2 ^ bits (getType S) = x"
  by (cases S) (auto split: option.splits)

lemma expandCheck_eval:
  assumes sound: "entry_guards_hold bits \<rho> E"
    and x: "eval_scev bits \<rho> LHS = Some x"
    and y: "eval_scev bits \<rho> RHS = Some y"
  shows "eval_val bits \<rho> (expandCheck E P LHS RHS) = Some (icmp (bits (getType LHS)) P x y)"
proof -
  have holds: "icmp (bits (getType LHS)) Q x y"
    if "SE_isLoopEntryGuardedByCond E (LP_L E) Q LHS RHS" for Q
    using sound that x y unfolding entry_guards_hold_def by fastforce
  show ?thesis
  proof (cases "SE_isLoopInvariant E LHS (LP_L E) \<and> SE_isLoopInvariant E RHS (LP_L E)
      \<and> SE_isLoopEntryGuardedByCond E (LP_L E) P LHS RHS")
    case True
    with holds [of P] show ?thesis
      by (simp add: expandCheck_def)
  next
    case nt: False
    show ?thesis
    proof (cases "SE_isLoopInvariant E LHS (LP_L E) \<and> SE_isLoopInvariant E RHS (LP_L E)
        \<and> SE_isLoopEntryGuardedByCond E (LP_L E) (getInversePredicate P) LHS RHS")
      case True
      with holds [of "getInversePredicate P"] have "\<not> icmp (bits (getType LHS)) P x y"
        by (simp add: icmp_inverse)
      with True nt show ?thesis
        by (auto simp: expandCheck_def)
    next
      case False
      with nt x y show ?thesis
        by (auto simp: expandCheck_def Let_def)
    qed
  qed
qed

lemma eval_limit_rhs:
  assumes "eval_scev bits \<rho> GuardLimit = Some gl" "eval_scev bits \<rho> GuardStart = Some gs"
    and "eval_scev bits \<rho> LatchStart = Some ls"
    and "getType GuardLimit = T" "getType GuardStart = T" "getType LatchStart = T"
  shows "eval_scev bits \<rho>
           (getAddExpr (getMinusSCEV GuardLimit GuardStart) (getMinusSCEV LatchStart (getOne T)))
         = Some ((gl - gs + ls - 1) mod 2 ^ bits T)"
proof -
  have "(gl + (- 1) mod 2 ^ bits T * gs mod 2 ^ bits T) mod 2 ^ bits T
      = (gl - gs) mod 2 ^ bits T"
    by (simp add: mod_simps)
  moreover have "(ls + (- 1) mod 2 ^ bits T * (1 mod 2 ^ bits T) mod 2 ^ bits T) mod 2 ^ bits T
      = (ls - 1) mod 2 ^ bits T"
    by (simp add: mod_simps)
  moreover have "((gl - gs) mod 2 ^ bits T + (ls - 1) mod 2 ^ bits T) mod 2 ^ bits T
      = (gl - gs + ls - 1) mod 2 ^ bits T"
    using mod_add_eq [of "gl - gs" "2 ^ bits T" "ls - 1"] by (simp add: algebra_simps)
  ultimately show ?thesis
    using assms by (simp add: getAddExpr_def getMinusSCEV_def getOne_def)
qed

lemma widenInc_eval:
  assumes sound: "entry_guards_hold bits \<rho> E"
    and widened: "widenICmpRangeCheckIncrementingLoop E LC RC = Some V"
    and gs: "eval_scev bits \<rho> (getStart (IV RC)) = Some gs"
    and gl: "eval_scev bits \<rho> (Limit RC) = Some gl"
    and ls: "eval_scev bits \<rho> (getStart (IV LC)) = Some ls"
    and ll: "eval_scev bits \<rho> (Limit LC) = Some ll"
    and types: "getType (IV RC) = T" "getType (getStart (IV RC)) = T" "getType (Limit RC) = T"
      "getType (getStart (IV LC)) = T" "getType (Limit LC) = T"
  shows "eval_val bits \<rho> V =
     Some (icmp (bits T) (Pred RC) gs gl
           \<and> icmp (bits T) (getFlippedStrictnessPredicate (Pred LC)) ll
               ((gl - gs + ls - 1) mod 2 ^ bits T))"
proof -
  let ?RHS = "getAddExpr (getMinusSCEV (Limit RC) (getStart (IV RC)))
                (getMinusSCEV (getStart (IV LC)) (getOne T))"
  let ?Limit = "expandCheck E (getFlippedStrictnessPredicate (Pred LC)) (Limit LC) ?RHS"
  let ?First = "expandCheck E (Pred RC) (getStart (IV RC)) (Limit RC)"
  from widened types(1) have V: "V = CreateAnd ?First ?Limit (findInsertPt E [?First, ?Limit])"
    by (simp add: widenICmpRangeCheckIncrementingLoop_def Let_def split: if_splits)
  have rhs: "eval_scev bits \<rho> ?RHS = Some ((gl - gs + ls - 1) mod 2 ^ bits T)"
    by (rule eval_limit_rhs [OF gl gs ls types(3) types(2) types(4)])
  have "eval_val bits \<rho> ?First = Some (icmp (bits T) (Pred RC) gs gl)"
    using expandCheck_eval [OF sound gs gl, of "Pred RC"] types(2) by simp
  moreover have "eval_val bits \<rho> ?Limit =
      Some (icmp (bits T) (getFlippedStrictnessPredicate (Pred LC)) ll
              ((gl - gs + ls - 1) mod 2 ^ bits T))"
    using expandCheck_eval [OF sound ll rhs, of "getFlippedStrictnessPredicate (Pred LC)"]
      types(5) by simp
  ultimately show ?thesis
    unfolding V by simp
qed

text \<open>
  C2 (as amended).  What \<open>widenICmpRangeCheckIncrementingLoop\<close> emits for a
  range check is the conjunction of the guard's comparison at the start value and
  of \<open>latchLimit pred' (guardLimit - guardStart + latchStart - 1)\<close>, computed in
  the width of the type, where \<open>pred'\<close> is the latch predicate with its
  strictness flipped and its direction and signedness kept: \<open><\<close> becomes
  \<open><=\<close> and \<open><=\<close> becomes \<open><\<close>.  Each of the two comparisons is emitted
  as a constant when scalar evolution decides it at the entry of the loop; the value
  is the same.
\<close>

theorem widenICmpRangeCheckIncrementingLoop_emits:
  assumes "entry_guards_hold bits \<rho> E"
    and "widenICmpRangeCheckIncrementingLoop E LatchCheck' RangeCheck = Some V"
    and "eval_scev bits \<rho> (getStart (IV RangeCheck)) = Some guardStart"
    and "eval_scev bits \<rho> (Limit RangeCheck) = Some guardLimit"
    and "eval_scev bits \<rho> (getStart (IV LatchCheck')) = Some latchStart"
    and "eval_scev bits \<rho> (Limit LatchCheck') = Some latchLimit"
    and "getType (IV RangeCheck) = T" "getType (getStart (IV RangeCheck)) = T"
      "getType (Limit RangeCheck) = T" "getType (getStart (IV LatchCheck')) = T"
      "getType (Limit LatchCheck') = T"
  shows "eval_val bits \<rho> V =
           Some (icmp (bits T) (Pred RangeCheck) guardStart guardLimit
                 \<and> icmp (bits T) (getFlippedStrictnessPredicate (Pred LatchCheck')) latchLimit
                     ((guardLimit - guardStart + latchStart - 1) mod 2 ^ bits T))
       \<and> getFlippedStrictnessPredicate ICMP_ULT = ICMP_ULE
       \<and> getFlippedStrictnessPredicate ICMP_ULE = ICMP_ULT
       \<and> getFlippedStrictnessPredicate ICMP_SLT = ICMP_SLE
       \<and> getFlippedStrictnessPredicate ICMP_SLE = ICMP_SLT"
  using widenInc_eval [OF assms] by simp

lemma ex_widenInc: "widenICmpRangeCheckIncrementingLoop ex_E ex_latch ex_range = Some ex_widened"
  by (simp add: ex_E_def ex_iv_def ex_N_def ex_range_def
      ex_M_def ex_iv_next_def ex_latch_def
      widenICmpRangeCheckIncrementingLoop_def isLoopInvariantValue_def expandCheck_def
      findInsertPt_def findInsertPtSCEV_def ex_widened_def getOne_def getAddExpr_def
      getMinusSCEV_def i32_def Let_def)

lemma ex_sound: "entry_guards_hold ex_bits \<rho> ex_E"
  by (simp add: entry_guards_hold_def ex_E_def ex_N_def i32_def ex_bits_def)

text \<open>
  The example loop with \<open>N = 5\<close> and \<open>M = 3\<close>: the check is
  \<open>0 u< 5 \<and> 3 s<= 5\<close>.
\<close>

theorem widenICmpRangeCheckIncrementingLoop_emits_witness:
  "widenICmpRangeCheckIncrementingLoop ex_E ex_latch ex_range = Some ex_widened
   \<and> eval_val ex_bits (ex_rho 5 3) ex_widened
       = Some (icmp 32 ICMP_ULT 0 5 \<and> icmp 32 ICMP_SLE 3 5)
   \<and> eval_val ex_bits (ex_rho 5 3) ex_widened = Some True"
proof -
  let ?\<rho> = "ex_rho 5 3"
  have e: "eval_scev ex_bits ?\<rho> (getStart (IV ex_range)) = Some 0"
    "eval_scev ex_bits ?\<rho> (Limit ex_range) = Some 5"
    "eval_scev ex_bits ?\<rho> (getStart (IV ex_latch)) = Some 1"
    "eval_scev ex_bits ?\<rho> (Limit ex_latch) = Some 3"
    by (simp_all add: ex_range_def ex_latch_def ex_iv_def ex_iv_next_def ex_N_def ex_M_def
        i32_def ex_bits_def ex_rho_def)
  have t: "getType (IV ex_range) = i32" "getType (getStart (IV ex_range)) = i32"
      "getType (Limit ex_range) = i32" "getType (getStart (IV ex_latch)) = i32"
      "getType (Limit ex_latch) = i32"
    by (simp_all add: ex_range_def ex_latch_def ex_iv_def ex_iv_next_def ex_N_def ex_M_def)
  have p: "Pred ex_range = ICMP_ULT" "Pred ex_latch = ICMP_SLT" "ex_bits i32 = 32"
    by (simp_all add: ex_range_def ex_latch_def ex_bits_def i32_def)
  from widenICmpRangeCheckIncrementingLoop_emits [OF ex_sound ex_widenInc e t]
  have "eval_val ex_bits ?\<rho> ex_widened = Some (icmp 32 ICMP_ULT 0 5 \<and> icmp 32 ICMP_SLE 3 5)"
    by (simp add: p)
  moreover have "icmp 32 ICMP_ULT 0 5 \<and> icmp 32 ICMP_SLE 3 5"
    by (simp add: to_signed_def)
  ultimately show ?thesis
    using ex_widenInc by simp
qed

text \<open>
  The claim as first stated maps \<open><\<close> to \<open>>=\<close>.  For the \<open>s<\<close> latch of the
  example the emitted limit check compares with \<open>s<=\<close>; with \<open>N = 5\<close> and
  \<open>M = 3\<close> the emitted check holds, and the conjunction with \<open>s>=\<close> does not.
\<close>

theorem widenICmpRangeCheckIncrementingLoop_flip_counterexample:
  "Pred ex_latch = ICMP_SLT
   \<and> widenICmpRangeCheckIncrementingLoop ex_E ex_latch ex_range = Some ex_widened
   \<and> eval_val ex_bits (ex_rho 5 3) ex_widened = Some True
   \<and> \<not> (icmp 32 ICMP_ULT 0 5 \<and> icmp 32 ICMP_SGE 3 ((5 - 0 + 1 - 1) mod 2 ^ 32))"
proof -
  have "eval_val ex_bits (ex_rho 5 3) ex_widened = Some True"
    by (simp add: ex_widened_def ex_N_def ex_M_def i32_def ex_bits_def getAddExpr_def
        getMinusSCEV_def getOne_def to_signed_def ex_rho_def)
  moreover have "\<not> (icmp 32 ICMP_ULT 0 5 \<and> icmp 32 ICMP_SGE 3 ((5 - 0 + 1 - 1) mod 2 ^ 32))"
    by (simp add: to_signed_def)
  moreover have "Pred ex_latch = ICMP_SLT" by (simp add: ex_latch_def)
  ultimately show ?thesis using ex_widenInc by blast
qed

text \<open>
  C1 (as amended).  For the guard \<open>i u< N\<close> with \<open>i\<close> starting at 0 and a
  latch \<open>s<\<close> against \<open>M\<close>, the emitted check is equivalent to
  \<open>(0 u< N) && (M s<= N - 1 + latchStart)\<close>.  The latch \<open>i++; i s< M\<close> compares
  the incremented variable, whose recurrence starts at 1: the check is
  \<open>(0 u< N) && (M s<= N)\<close>.  It is \<open>(0 u< N) && (M s<= N - 1)\<close> for a latch
  on a recurrence that starts at 0.
\<close>

theorem incrementing_loop_check:
  assumes "entry_guards_hold bits \<rho> E"
    and "RangeCheck = \<lparr>Pred = ICMP_ULT,
           IV = SCEVAddRecExpr [SCEVConstant T 0, SCEVConstant T 1] l f, Limit = N\<rparr>"
    and "LatchCheck' = \<lparr>Pred = ICMP_SLT,
           IV = SCEVAddRecExpr [SCEVConstant T s, SCEVConstant T 1] l f', Limit = M\<rparr>"
    and "widenICmpRangeCheckIncrementingLoop E LatchCheck' RangeCheck = Some V"
    and "eval_scev bits \<rho> N = Some n" "eval_scev bits \<rho> M = Some m"
    and "getType N = T" "getType M = T"
  shows "(s = 1 \<longrightarrow>
            eval_val bits \<rho> V = Some (icmp (bits T) ICMP_ULT 0 n \<and> icmp (bits T) ICMP_SLE m n))
       \<and> (s = 0 \<longrightarrow>
            eval_val bits \<rho> V =
              Some (icmp (bits T) ICMP_ULT 0 n
                    \<and> icmp (bits T) ICMP_SLE m ((n - 1) mod 2 ^ bits T)))"
proof -
  have gs: "eval_scev bits \<rho> (getStart (IV RangeCheck)) = Some 0"
    and gl: "eval_scev bits \<rho> (Limit RangeCheck) = Some n"
    and ls: "eval_scev bits \<rho> (getStart (IV LatchCheck')) = Some (s mod 2 ^ bits T)"
    and ll: "eval_scev bits \<rho> (Limit LatchCheck') = Some m"
    using assms by simp_all
  have t: "getType (IV RangeCheck) = T" "getType (getStart (IV RangeCheck)) = T"
      "getType (Limit RangeCheck) = T" "getType (getStart (IV LatchCheck')) = T"
      "getType (Limit LatchCheck') = T"
    using assms by simp_all
  have p: "Pred RangeCheck = ICMP_ULT" "Pred LatchCheck' = ICMP_SLT"
    using assms by simp_all
  from widenInc_eval [OF assms(1) assms(4) gs gl ls ll t]
  have v: "eval_val bits \<rho> V =
     Some (icmp (bits T) ICMP_ULT 0 n
           \<and> icmp (bits T) ICMP_SLE m ((n - 0 + s mod 2 ^ bits T - 1) mod 2 ^ bits T))"
    by (simp add: p)
  have n: "n mod 2 ^ bits T = n"
    using eval_scev_reduced [OF assms(5)] assms(7) by simp
  have "(n - 0 + 1 mod 2 ^ bits T - 1) mod 2 ^ bits T = n"
  proof (cases "bits T = 0")
    case True
    with n show ?thesis by simp
  next
    case False
    then have "(1::int) mod 2 ^ bits T = 1" by simp
    with n show ?thesis by simp
  qed
  moreover have "(n - 0 + 0 mod 2 ^ bits T - 1) mod 2 ^ bits T = (n - 1) mod 2 ^ bits T"
    by simp
  ultimately show ?thesis
    using v by auto
qed

text \<open>The example loop with \<open>N = 7\<close> and \<open>M = 9\<close>: the check fails.\<close>

theorem incrementing_loop_check_witness:
  "widenICmpRangeCheckIncrementingLoop ex_E ex_latch ex_range = Some ex_widened
   \<and> eval_val ex_bits (ex_rho 7 9) ex_widened
       = Some (icmp 32 ICMP_ULT 0 7 \<and> icmp 32 ICMP_SLE 9 7)
   \<and> eval_val ex_bits (ex_rho 7 9) ex_widened = Some False"
proof -
  let ?\<rho> = "ex_rho 7 9"
  have r: "ex_range = \<lparr>Pred = ICMP_ULT,
           IV = SCEVAddRecExpr [SCEVConstant i32 0, SCEVConstant i32 1] 0 0, Limit = ex_N\<rparr>"
    by (simp add: ex_range_def ex_iv_def)
  have l: "ex_latch = \<lparr>Pred = ICMP_SLT,
           IV = SCEVAddRecExpr [SCEVConstant i32 1, SCEVConstant i32 1] 0 0, Limit = ex_M\<rparr>"
    by (simp add: ex_latch_def ex_iv_next_def)
  have e: "eval_scev ex_bits ?\<rho> ex_N = Some 7" "eval_scev ex_bits ?\<rho> ex_M = Some 9"
    by (simp_all add: ex_N_def ex_M_def i32_def ex_bits_def ex_rho_def)
  have t: "getType ex_N = i32" "getType ex_M = i32"
    by (simp_all add: ex_N_def ex_M_def)
  have b: "ex_bits i32 = 32" by (simp add: ex_bits_def i32_def)
  from incrementing_loop_check [OF ex_sound r l ex_widenInc e t]
  have "eval_val ex_bits ?\<rho> ex_widened = Some (icmp 32 ICMP_ULT 0 7 \<and> icmp 32 ICMP_SLE 9 7)"
    by (simp add: b)
  moreover have "\<not> icmp 32 ICMP_SLE 9 7"
    by (simp add: to_signed_def)
  ultimately show ?thesis
    using ex_widenInc by simp
qed

text \<open>
  The claim as first stated gives \<open>(0 u< N) && (M s<= N - 1)\<close> for the latch
  \<open>i++; i s< M\<close>.  With \<open>N = M = 5\<close> the emitted check holds, as the guard
  does on each of the five iterations, and the claimed condition does not.
\<close>

theorem incrementing_loop_check_counterexample:
  "ex_range = \<lparr>Pred = ICMP_ULT,
       IV = SCEVAddRecExpr [SCEVConstant i32 0, SCEVConstant i32 1] 0 0, Limit = ex_N\<rparr>
   \<and> ex_latch = \<lparr>Pred = ICMP_SLT,
       IV = SCEVAddRecExpr [SCEVConstant i32 1, SCEVConstant i32 1] 0 0, Limit = ex_M\<rparr>
   \<and> widenICmpRangeCheckIncrementingLoop ex_E ex_latch ex_range = Some ex_widened
   \<and> eval_val ex_bits (ex_rho 5 5) ex_widened = Some True
   \<and> \<not> (icmp 32 ICMP_ULT 0 5 \<and> icmp 32 ICMP_SLE 5 ((5 - 1) mod 2 ^ 32))"
proof -
  have "eval_val ex_bits (ex_rho 5 5) ex_widened = Some True"
    by (simp add: ex_widened_def ex_N_def ex_M_def i32_def ex_bits_def getAddExpr_def
        getMinusSCEV_def getOne_def to_signed_def ex_rho_def)
  moreover have "\<not> (icmp 32 ICMP_ULT 0 5 \<and> icmp 32 ICMP_SLE 5 ((5 - 1) mod 2 ^ 32))"
    by (simp add: to_signed_def)
  moreover have "ex_range = \<lparr>Pred = ICMP_ULT,
       IV = SCEVAddRecExpr [SCEVConstant i32 0, SCEVConstant i32 1] 0 0, Limit = ex_N\<rparr>"
    by (simp add: ex_range_def ex_iv_def)
  moreover have "ex_latch = \<lparr>Pred = ICMP_SLT,
       IV = SCEVAddRecExpr [SCEVConstant i32 1, SCEVConstant i32 1] 0 0, Limit = ex_M\<rparr>"
    by (simp add: ex_latch_def ex_iv_next_def)
  ultimately show ?thesis using ex_widenInc by blast
qed

end
